theory Spec2Isabelle
  imports Main "HOL-Library.Word"
begin

unbundle bit_operations_syntax

section \<open>The next-fit allocator of mm.c\<close>

text \<open>
  The allocator keeps its whole state in the heap region itself (boundary tags) and in
  two globals, \<open>heap_listp\<close> and \<open>next_fit\<close>. The model follows the C text function by
  function.

  Data model. Memory is byte addressed: a function from addresses to bytes. Addresses
  are unbounded integers (pointer arithmetic that leaves the object is undefined in C,
  so no wrap-around is modelled for pointers). \<open>uint32_t\<close> is \<open>32 word\<close>, \<open>size_t\<close> is
  \<open>64 word\<close> and \<open>int\<close> is a \<open>32 word\<close> read through \<open>sint\<close> (the LP64 data model);
  narrowing conversions keep the low bits. A header or footer is the little-endian
  encoding of a \<open>uint32_t\<close> in four consecutive bytes. A null pointer result is
  \<open>None\<close>.

  Loads and stores never fault in the model: memory is total, and a store outside the
  region handed out by \<open>mem_sbrk\<close>, where the C program is undefined, just updates the
  function. No statement below relies on such an access going well; where an input makes
  the code store outside the region, the statement gives the address.
\<close>

type_synonym memory = "int \<Rightarrow> 8 word"

record heap_state =
  mem :: memory
  heap_listp :: int
  next_fit :: int
  mem_brk :: int
  mem_max_addr :: int

subsection \<open>Constants and the header codec\<close>

definition WSIZE :: int where "WSIZE = 4"

definition DSIZE :: int where "DSIZE = 8"

definition CHUNKSIZE :: "32 word" where "CHUNKSIZE = push_bit 12 1"

text \<open>\<open>MAX\<close> (here \<open>MAX_int\<close>) takes and returns \<open>int\<close>: the comparison is signed.\<close>

definition MAX_int :: "32 word \<Rightarrow> 32 word \<Rightarrow> 32 word" where
  "MAX_int x y = (if sint x > sint y then x else y)"

definition PACK :: "32 word \<Rightarrow> 32 word \<Rightarrow> 32 word" where
  "PACK sz alloc = sz OR (alloc AND 1)"

definition GET :: "memory \<Rightarrow> int \<Rightarrow> 32 word" where
  "GET m p = ucast (m p) OR push_bit 8 (ucast (m (p + 1)))
               OR push_bit 16 (ucast (m (p + 2))) OR push_bit 24 (ucast (m (p + 3)))"

definition PUT :: "memory \<Rightarrow> int \<Rightarrow> 32 word \<Rightarrow> memory" where
  "PUT m p val = m(p := ucast val, p + 1 := ucast (drop_bit 8 val),
                   p + 2 := ucast (drop_bit 16 val), p + 3 := ucast (drop_bit 24 val))"

definition GET_SIZE :: "memory \<Rightarrow> int \<Rightarrow> 32 word" where
  "GET_SIZE m p = GET m p AND NOT 7"

definition GET_ALLOC :: "memory \<Rightarrow> int \<Rightarrow> 32 word" where
  "GET_ALLOC m p = GET m p AND 1"

definition HDRP :: "int \<Rightarrow> int" where
  "HDRP bp = bp - WSIZE"

definition FTRP :: "memory \<Rightarrow> int \<Rightarrow> int" where
  "FTRP m bp = bp + uint (GET_SIZE m (HDRP bp)) - DSIZE"

definition NEXT_BLKP :: "memory \<Rightarrow> int \<Rightarrow> int" where
  "NEXT_BLKP m bp = bp + uint (GET_SIZE m (bp - WSIZE))"

definition PREV_BLKP :: "memory \<Rightarrow> int \<Rightarrow> int" where
  "PREV_BLKP m bp = bp - uint (GET_SIZE m (bp - DSIZE))"

subsection \<open>The raw heap-growth primitive\<close>

text \<open>
  Modelled from the spec: \<open>mem_sbrk\<close> (memlib.c is not part of the sources). It extends
  the region by the requested number of bytes and returns the old top of the heap; it
  fails, changing nothing, when the request would pass the hard limit.
\<close>

definition mem_sbrk :: "nat \<Rightarrow> heap_state \<Rightarrow> int option \<times> heap_state" where
  "mem_sbrk incr s =
     (if mem_brk s + int incr > mem_max_addr s then (None, s)
      else (Some (mem_brk s), s\<lparr>mem_brk := mem_brk s + int incr\<rparr>))"

subsection \<open>coalesce\<close>

definition coalesce :: "int \<Rightarrow> heap_state \<Rightarrow> int \<times> heap_state" where
  "coalesce bp s =
     (let m = mem s;
          prev_alloc = GET_ALLOC m (FTRP m (PREV_BLKP m bp));
          next_alloc = GET_ALLOC m (HDRP (NEXT_BLKP m bp));
          sz = (ucast (GET_SIZE m (HDRP bp)) :: 64 word)
      in if prev_alloc \<noteq> 0 \<and> next_alloc \<noteq> 0 then (bp, s)
         else
           let (bp, m) =
             (if prev_alloc \<noteq> 0 \<and> next_alloc = 0 then
                let sz = sz + ucast (GET_SIZE m (HDRP (NEXT_BLKP m bp)));
                    m = PUT m (HDRP bp) (PACK (ucast sz) 0);
                    m = PUT m (FTRP m bp) (PACK (ucast sz) 0)
                in (bp, m)
              else if prev_alloc = 0 \<and> next_alloc \<noteq> 0 then
                let sz = sz + ucast (GET_SIZE m (HDRP (PREV_BLKP m bp)));
                    m = PUT m (FTRP m bp) (PACK (ucast sz) 0);
                    m = PUT m (HDRP (PREV_BLKP m bp)) (PACK (ucast sz) 0)
                in (PREV_BLKP m bp, m)
              else
                let sz = sz + ucast (GET_SIZE m (HDRP (PREV_BLKP m bp))
                                         + GET_SIZE m (FTRP m (NEXT_BLKP m bp)));
                    m = PUT m (HDRP (PREV_BLKP m bp)) (PACK (ucast sz) 0);
                    m = PUT m (FTRP m (NEXT_BLKP m bp)) (PACK (ucast sz) 0)
                in (PREV_BLKP m bp, m))
           in (bp, s\<lparr>mem := m,
                     next_fit := (if next_fit s \<ge> bp \<and> next_fit s < NEXT_BLKP m bp
                                  then bp else next_fit s)\<rparr>))"

subsection \<open>extend\_heap and mm\_init\<close>

text \<open>The byte count \<open>extend_heap\<close> computes from its word count (its local \<open>size\<close>).\<close>

definition extend_heap_size :: "32 word \<Rightarrow> 64 word" where
  "extend_heap_size words = (if words mod 2 \<noteq> 0 then ucast ((words + 1) * 4) else ucast (words * 4))"

definition extend_heap :: "32 word \<Rightarrow> heap_state \<Rightarrow> int option \<times> heap_state" where
  "extend_heap words s =
     (let sz = extend_heap_size words
      in case mem_sbrk (unat sz) s of
           (None, s) \<Rightarrow> (None, s)
         | (Some bp, s) \<Rightarrow>
             let m = mem s;
                 m = PUT m (HDRP bp) (PACK (ucast sz) 0);
                 m = PUT m (FTRP m bp) (PACK (ucast sz) 0);
                 m = PUT m (HDRP (NEXT_BLKP m bp)) (PACK 0 1);
                 (bp, s) = coalesce bp (s\<lparr>mem := m\<rparr>)
             in (Some bp, s))"

text \<open>
  \<open>mm_init\<close> returns \<open>-1\<close> on failure and \<open>0\<close> on success. When the first \<open>mem_sbrk\<close>
  fails, \<open>heap_listp\<close> has been assigned its result \<open>(void *) -1\<close>, written \<open>-1\<close> here.
\<close>

definition mm_init :: "heap_state \<Rightarrow> int \<times> heap_state" where
  "mm_init s =
     (case mem_sbrk (nat (4 * WSIZE)) s of
        (None, s) \<Rightarrow> (- 1, s\<lparr>heap_listp := - 1\<rparr>)
      | (Some p, s) \<Rightarrow>
          let s = s\<lparr>heap_listp := p\<rparr>;
              m = mem s;
              m = PUT m (heap_listp s) 0;
              m = PUT m (heap_listp s + 1 * WSIZE) (PACK 8 1);
              m = PUT m (heap_listp s + 2 * WSIZE) (PACK 8 1);
              m = PUT m (heap_listp s + 3 * WSIZE) (PACK 0 1);
              s = s\<lparr>mem := m, heap_listp := heap_listp s + 2 * WSIZE\<rparr>;
              s = s\<lparr>next_fit := heap_listp s\<rparr>
          in (case extend_heap (CHUNKSIZE div 4) s of
                (None, s) \<Rightarrow> (- 1, s)
              | (Some _, s) \<Rightarrow> (0, s)))"

subsection \<open>find\_fit\<close>

text \<open>
  Both loops advance the cursor by the size read from a header; nothing in the code
  bounds the walk, so each loop is a partial function: \<open>None\<close> is a loop that never
  ends.
\<close>

definition fits :: "memory \<Rightarrow> 32 word \<Rightarrow> int \<Rightarrow> bool" where
  "fits m asize bp = (GET_ALLOC m (HDRP bp) = 0 \<and> asize \<le> GET_SIZE m (HDRP bp))"

partial_function (option) find_fit_fwd :: "32 word \<Rightarrow> heap_state \<Rightarrow> (int option \<times> heap_state) option" where
  "find_fit_fwd asize s =
     (if GET_SIZE (mem s) (HDRP (next_fit s)) > 0 then
        (if fits (mem s) asize (next_fit s) then Some (Some (next_fit s), s)
         else find_fit_fwd asize (s\<lparr>next_fit := NEXT_BLKP (mem s) (next_fit s)\<rparr>))
      else Some (None, s))"

partial_function (option) find_fit_wrap :: "32 word \<Rightarrow> int \<Rightarrow> heap_state \<Rightarrow> (int option \<times> heap_state) option" where
  "find_fit_wrap asize bp s =
     (if next_fit s < bp then
        (if fits (mem s) asize (next_fit s) then Some (Some (next_fit s), s)
         else find_fit_wrap asize bp (s\<lparr>next_fit := NEXT_BLKP (mem s) (next_fit s)\<rparr>))
      else Some (None, s))"

declare find_fit_fwd.simps [code] find_fit_wrap.simps [code]

definition find_fit :: "32 word \<Rightarrow> heap_state \<Rightarrow> (int option \<times> heap_state) option" where
  "find_fit asize s =
     (let bp = next_fit s in
      case find_fit_fwd asize (s\<lparr>next_fit := bp\<rparr>) of
        None \<Rightarrow> None
      | Some (Some r, s) \<Rightarrow> Some (Some r, s)
      | Some (None, s) \<Rightarrow> find_fit_wrap asize bp (s\<lparr>next_fit := heap_listp s\<rparr>))"

text \<open>
  The block sequence: \<open>chain m p bs q\<close> holds when walking from \<open>p\<close> with
  \<open>NEXT_BLKP\<close> visits exactly the block pointers \<open>bs\<close>, each of non-zero size, and
  arrives at \<open>q\<close>.
\<close>

fun chain :: "memory \<Rightarrow> int \<Rightarrow> int list \<Rightarrow> int \<Rightarrow> bool" where
  "chain m p [] q = (p = q)"
| "chain m p (b # bs) q = (b = p \<and> GET_SIZE m (HDRP p) \<noteq> 0 \<and> chain m (NEXT_BLKP m p) bs q)"

subsection \<open>place\<close>

definition place :: "int \<Rightarrow> 32 word \<Rightarrow> heap_state \<Rightarrow> heap_state" where
  "place bp asize s =
     (let m = mem s;
          csize = (ucast (GET_SIZE m (HDRP bp)) :: 64 word);
          (bp, m) =
            (if csize - ucast asize \<ge> 16 then
               let m = PUT m (HDRP bp) (PACK asize 1);
                   m = PUT m (FTRP m bp) (PACK asize 1);
                   bp = NEXT_BLKP m bp;
                   m = PUT m (HDRP bp) (PACK (ucast (csize - ucast asize)) 0);
                   m = PUT m (FTRP m bp) (PACK (ucast (csize - ucast asize)) 0)
               in (bp, m)
             else
               let m = PUT m (HDRP bp) (PACK (ucast csize) 1);
                   m = PUT m (FTRP m bp) (PACK (ucast csize) 1)
               in (bp, m))
      in s\<lparr>mem := m,
            next_fit := (if next_fit s = bp then NEXT_BLKP m bp else next_fit s)\<rparr>)"

subsection \<open>mm\_malloc, mm\_free, mm\_realloc\<close>

definition adjusted_size :: "32 word \<Rightarrow> 64 word" where
  "adjusted_size sz =
     (if sz \<le> 8 then 16 else ucast (8 * ((sz + 8 + (8 - 1)) div 8)))"

definition extendsize :: "64 word \<Rightarrow> 64 word" where
  "extendsize asize = scast (MAX_int (ucast asize) CHUNKSIZE)"

definition mm_malloc :: "32 word \<Rightarrow> heap_state \<Rightarrow> (int option \<times> heap_state) option" where
  "mm_malloc sz s =
     (if sz = 0 then Some (None, s)
      else
        let asize = adjusted_size sz in
        case find_fit (ucast asize) s of
          None \<Rightarrow> None
        | Some (Some bp, s) \<Rightarrow> Some (Some bp, place bp (ucast asize) s)
        | Some (None, s) \<Rightarrow>
            (case extend_heap (ucast (extendsize asize div 4)) s of
               (None, s) \<Rightarrow> Some (None, s)
             | (Some bp, s) \<Rightarrow> Some (Some bp, place bp (ucast asize) s)))"

definition mm_free :: "int \<Rightarrow> heap_state \<Rightarrow> heap_state" where
  "mm_free bp s =
     (let m = mem s;
          sz = (ucast (GET_SIZE m (HDRP bp)) :: 64 word);
          m = PUT m (HDRP bp) (PACK (ucast sz) 0);
          m = PUT m (FTRP m bp) (PACK (ucast sz) 0)
      in snd (coalesce bp (s\<lparr>mem := m\<rparr>)))"

text \<open>
  The heap as \<open>mm_free\<close> hands it to \<open>coalesce\<close>: the block's header and footer
  rewritten as free.
\<close>

definition mark_free :: "int \<Rightarrow> heap_state \<Rightarrow> heap_state" where
  "mark_free bp s =
     (let m = mem s;
          sz = (ucast (GET_SIZE m (HDRP bp)) :: 64 word);
          m = PUT m (HDRP bp) (PACK (ucast sz) 0);
          m = PUT m (FTRP m bp) (PACK (ucast sz) 0)
      in s\<lparr>mem := m\<rparr>)"

text \<open>
  \<open>memcpy\<close> of \<open>n\<close> bytes between regions that do not overlap (overlapping regions are
  undefined for \<open>memcpy\<close>).
\<close>

definition memcpy :: "memory \<Rightarrow> int \<Rightarrow> int \<Rightarrow> nat \<Rightarrow> memory" where
  "memcpy m dst src n = (\<lambda>a. if dst \<le> a \<and> a < dst + int n then m (src + (a - dst)) else m a)"

text \<open>\<open>mm_realloc\<close> either returns the new block or ends the process with \<open>exit(1)\<close>.\<close>

datatype realloc_result = Exit int | Returned int heap_state

definition mm_realloc :: "int \<Rightarrow> 32 word \<Rightarrow> heap_state \<Rightarrow> realloc_result option" where
  "mm_realloc ptr sz s =
     (case mm_malloc sz s of
        None \<Rightarrow> None
      | Some (None, s) \<Rightarrow> Some (Exit 1)
      | Some (Some newp, s) \<Rightarrow>
          let copySize = GET_SIZE (mem s) (HDRP ptr);
              copySize = (if sz < copySize then sz else copySize);
              s = s\<lparr>mem := memcpy (mem s) newp ptr (unat copySize)\<rparr>
          in Some (Returned newp (mm_free ptr s)))"

subsection \<open>Driving the allocator\<close>

text \<open>
  A client issues allocate and free requests. \<open>run\<close> keeps the list of blocks handed
  out and not yet released, and refuses (\<open>None\<close>) to free anything else.
\<close>

datatype request = Allocate "32 word" | Release int

fun run :: "request list \<Rightarrow> int list \<Rightarrow> heap_state \<Rightarrow> (int list \<times> heap_state) option" where
  "run [] live s = Some (live, s)"
| "run (Allocate n # rs) live s =
     (case mm_malloc n s of
        None \<Rightarrow> None
      | Some (None, s') \<Rightarrow> run rs live s'
      | Some (Some p, s') \<Rightarrow> run rs (p # live) s')"
| "run (Release p # rs) live s =
     (if p \<in> set live then run rs (remove1 p live) (mm_free p s) else None)"

text \<open>
  A fresh region of 20 MB starting at address 4096, all bytes zero, before \<open>mm_init\<close>.
\<close>

definition boot :: heap_state where
  "boot = \<lparr>mem = (\<lambda>_. 0), heap_listp = 0, next_fit = 0,
            mem_brk = 4096, mem_max_addr = 4096 + 20971520\<rparr>"

subsection \<open>Concrete heaps\<close>

text \<open>
  The heaps a short session goes through, each written as the words the operation
  stores on top of the heap before it: \<open>heap1\<close> is the heap after \<open>mm_init\<close>, and
  \<open>heap2\<close> to \<open>heap8\<close> follow the requests \<open>malloc(8)\<close>, \<open>malloc(8)\<close>,
  \<open>malloc(4056)\<close>, \<open>free(4112)\<close>, \<open>malloc(4294967288)\<close>, \<open>free(4112)\<close>,
  \<open>free(4144)\<close>.
\<close>

definition heap1 :: heap_state where
  "heap1 = boot\<lparr>mem := PUT (PUT (PUT (PUT (PUT (PUT (PUT (mem boot) 4096 0) 4100 9) 4104 9) 4108 1)
                            4108 4096) 8200 4096) 8204 1,
      heap_listp := 4104, next_fit := 4104, mem_brk := 8208\<rparr>"

definition heap2 :: heap_state where
  "heap2 = heap1\<lparr>mem := PUT (PUT (PUT (PUT (mem heap1) 4108 17) 4120 17) 4124 4080) 8200 4080,
      next_fit := 4112\<rparr>"

definition heap3 :: heap_state where
  "heap3 = heap2\<lparr>mem := PUT (PUT (PUT (PUT (mem heap2) 4124 17) 4136 17) 4140 4064) 8200 4064,
      next_fit := 4128\<rparr>"

definition heap4 :: heap_state where
  "heap4 = heap3\<lparr>mem := PUT (PUT (mem heap3) 4140 4065) 8200 4065, next_fit := 8208\<rparr>"

definition heap5 :: heap_state where
  "heap5 = heap4\<lparr>mem := PUT (PUT (mem heap4) 4108 16) 4120 16\<rparr>"

definition heap6 :: heap_state where
  "heap6 = heap5\<lparr>mem := PUT (PUT (PUT (PUT (mem heap5) 4108 1) 4104 1) 4108 16) 4120 16,
      next_fit := 4128\<rparr>"

definition heap7 :: heap_state where
  "heap7 = heap6\<lparr>mem := PUT (PUT (PUT (PUT (mem heap6) 4108 16) 4120 16) 4120 32) 4108 32,
      next_fit := 4112\<rparr>"

definition heap8 :: heap_state where
  "heap8 = heap7\<lparr>mem := PUT (PUT (mem heap7) 4140 4064) 8200 4064\<rparr>"

text \<open>
  The heap after \<open>mm_init\<close> and \<open>malloc(4294967295)\<close>: a block of 8 bytes at 4112.
\<close>

definition heap_short :: heap_state where
  "heap_short = heap1\<lparr>mem := PUT (PUT (PUT (PUT (mem heap1) 4108 9) 4112 9) 4116 4088) 8200 4088,
      next_fit := 4112\<rparr>"

text \<open>
  The three stages of \<open>realloc(4112, 4294967295)\<close> on \<open>heap2\<close>: after the inner
  \<open>mm_malloc\<close>, after the copy of 16 bytes, and after \<open>mm_free(4112)\<close>.
\<close>

definition heap_re1 :: heap_state where
  "heap_re1 = heap2\<lparr>mem := PUT (PUT (PUT (PUT (mem heap2) 4124 9) 4128 9) 4132 4072) 8200 4072,
      next_fit := 4128\<rparr>"

definition heap_re2 :: heap_state where
  "heap_re2 = heap_re1\<lparr>mem := memcpy (mem heap_re1) 4128 4112 16\<rparr>"

definition heap_re3 :: heap_state where
  "heap_re3 = heap_re2\<lparr>mem := PUT (PUT (mem heap_re2) 4108 16) 4120 16\<rparr>"

subsection \<open>The heap as a list of blocks\<close>

text \<open>
  The definitions of this subsection are not code of mm.c. They describe the heap the
  code maintains, so that its invariant can be stated: a heap is a list of blocks, each a
  pair of the size and the allocated flag its two tags carry.
\<close>

type_synonym block = "32 word \<times> 32 word"

text \<open>The bytes a list of blocks covers.\<close>

fun total_size :: "block list \<Rightarrow> int" where
  "total_size [] = 0"
| "total_size ((sz, a) # L) = uint sz + total_size L"

text \<open>
  The memory \<open>m\<close> holds the blocks \<open>L\<close> one after the other, the first with its payload at
  \<open>p\<close>: every size is a positive multiple of 8, every flag is 0 or 1, and header and
  footer of a block agree.
\<close>

fun layout :: "memory \<Rightarrow> int \<Rightarrow> block list \<Rightarrow> bool" where
  "layout m p [] = True"
| "layout m p ((sz, a) # L) =
     (sz \<noteq> 0 \<and> 8 dvd uint sz \<and> (a = 0 \<or> a = 1)
      \<and> GET m (p - 4) = PACK sz a \<and> GET m (p + uint sz - 8) = PACK sz a
      \<and> layout m (p + uint sz) L)"

text \<open>The payload addresses of the blocks, and those of the allocated blocks.\<close>

fun starts :: "int \<Rightarrow> block list \<Rightarrow> int list" where
  "starts p [] = []"
| "starts p ((sz, a) # L) = p # starts (p + uint sz) L"

fun allocated :: "int \<Rightarrow> block list \<Rightarrow> int set" where
  "allocated p [] = {}"
| "allocated p ((sz, a) # L) = (if a = 1 then {p} else {}) \<union> allocated (p + uint sz) L"

text \<open>
  The bytes of the allocated blocks, each from its header to the byte before the header
  of the next block: what belongs to the client and to the block's own tags.
\<close>

fun owned :: "int \<Rightarrow> block list \<Rightarrow> int set" where
  "owned p [] = {}"
| "owned p ((sz, a) # L) =
     (if a = 1 then {p - 4 ..< p + uint sz - 4} else {}) \<union> owned (p + uint sz) L"

text \<open>No two neighbours in the list are both free.\<close>

fun naf :: "block list \<Rightarrow> bool" where
  "naf ((s1, a1) # (s2, a2) # L) = (\<not> (a1 = 0 \<and> a2 = 0) \<and> naf ((s2, a2) # L))"
| "naf _ = True"

text \<open>
  The heap invariant: the list starts with the prologue, fills the heap from
  \<open>heap_listp\<close> to \<open>mem_brk\<close>, where the epilogue header sits, has no two free
  neighbours, and the cursor is at one of its blocks or at the epilogue. The region is
  smaller than 4 GB, so that every block size fits the 29 bits of a tag.
\<close>

definition heap_inv :: "block list \<Rightarrow> heap_state \<Rightarrow> bool" where
  "heap_inv K s \<longleftrightarrow>
     K \<noteq> [] \<and> hd K = (8, 1)
     \<and> layout (mem s) (heap_listp s) K
     \<and> mem_brk s = heap_listp s + total_size K
     \<and> GET (mem s) (mem_brk s - 4) = PACK 0 1
     \<and> naf K
     \<and> (next_fit s \<in> set (starts (heap_listp s) K) \<or> next_fit s = mem_brk s)
     \<and> mem_brk s \<le> mem_max_addr s
     \<and> mem_max_addr s - heap_listp s < 4294967296"

text \<open>
  The postcondition of \<open>coalesce\<close>, called on the free block of size \<open>c\<close> of a heap
  \<open>K\<close> that ends at \<open>e\<close> and where only that block may have a free neighbour: the new
  heap covers the same bytes with the same allocated blocks, the returned block is free
  and at least as large, and no two neighbours are free.
\<close>

definition merged ::
  "int \<Rightarrow> int \<Rightarrow> block list \<Rightarrow> 32 word \<Rightarrow> heap_state \<Rightarrow> int \<Rightarrow> heap_state \<Rightarrow> bool" where
  "merged hl e K c s r s' \<longleftrightarrow>
     (\<exists>A' c' B'. layout (mem s') hl (A' @ (c', 0) # B') \<and> r = hl + total_size A' \<and> uint c \<le> uint c'
        \<and> A' \<noteq> [] \<and> hd A' = hd K
        \<and> total_size (A' @ (c', 0) # B') = total_size K
        \<and> naf (A' @ (c', 0) # B')
        \<and> (next_fit s' \<in> set (starts hl (A' @ (c', 0) # B')) \<or> next_fit s' = e)
        \<and> allocated hl (A' @ (c', 0) # B') = allocated hl K)
     \<and> GET (mem s') (e - 4) = PACK 0 1
     \<and> s' = s\<lparr>mem := mem s', next_fit := next_fit s'\<rparr>"

text \<open>
  A request is in range when the rounding of \<open>mm_malloc\<close> neither wraps nor leaves the
  positive half of \<open>int\<close>.
\<close>

fun in_range :: "request \<Rightarrow> bool" where
  "in_range (Allocate n) = (uint n \<le> 2147483632)"
| "in_range (Release p) = True"

text \<open>Two consecutive blocks of a walk are both free.\<close>

fun free_pair :: "memory \<Rightarrow> int list \<Rightarrow> bool" where
  "free_pair m (b1 # b2 # bs) =
     (GET_ALLOC m (HDRP b1) = 0 \<and> GET_ALLOC m (HDRP b2) = 0 \<or> free_pair m (b2 # bs))"
| "free_pair m bs = False"

section \<open>Properties\<close>

subsection \<open>Reading and writing words\<close>

lemma GET_PUT_same: "GET (PUT m p v) p = v"
  unfolding GET_def PUT_def
  apply (rule bit_word_eqI)
  apply (auto simp add: bit_simps)
  subgoal for n by (cases "n < 24") auto
  done

lemma GET_PUT_other: "q + 4 \<le> p \<or> p + 4 \<le> q \<Longrightarrow> GET (PUT m p v) q = GET m q"
  unfolding GET_def PUT_def by auto

lemma GET_zero: "GET (\<lambda>_. 0) p = 0"
  by (simp add: GET_def)

lemmas codec = GET_SIZE_def GET_ALLOC_def HDRP_def FTRP_def NEXT_BLKP_def PREV_BLKP_def
  PACK_def WSIZE_def DSIZE_def CHUNKSIZE_def

lemmas reads = GET_PUT_same GET_PUT_other GET_zero

lemmas ops = mm_malloc_def adjusted_size_def extendsize_def MAX_int_def find_fit_def
  find_fit_fwd.simps find_fit_wrap.simps fits_def place_def mm_free_def coalesce_def
  extend_heap_def extend_heap_size_def mem_sbrk_def mm_init_def Let_def

lemmas heaps = boot_def heap1_def heap2_def heap3_def heap4_def heap5_def heap6_def
  heap7_def heap8_def

lemma seven_mask: "(7 :: 32 word) = mask 3"
  by (simp add: mask_eq_exp_minus_1)

lemma dvd8_iff: "8 dvd uint (sz :: 32 word) \<longleftrightarrow> take_bit 3 sz = 0"
proof -
  have "take_bit 3 sz = 0 \<longleftrightarrow> uint (take_bit 3 sz) = 0"
    by (simp add: uint_0_iff)
  also have "\<dots> \<longleftrightarrow> take_bit 3 (uint sz) = 0"
    by (simp add: unsigned_take_bit_eq)
  also have "\<dots> \<longleftrightarrow> 8 dvd uint sz"
    by (simp add: take_bit_eq_0_iff)
  finally show ?thesis by simp
qed

lemma low3: "8 dvd uint (sz :: 32 word) \<Longrightarrow> n < 3 \<Longrightarrow> \<not> bit sz n"
proof
  assume a: "8 dvd uint sz" "n < 3" "bit sz n"
  then have "bit (take_bit 3 sz) n" by (simp add: bit_simps)
  with a(1) show False by (simp add: dvd8_iff)
qed

lemma PACK_size: "8 dvd uint sz \<Longrightarrow> PACK sz a AND NOT 7 = sz"
  unfolding PACK_def seven_mask
  by (rule bit_word_eqI) (auto simp add: bit_simps dest: low3)

lemma PACK_alloc: "8 dvd uint sz \<Longrightarrow> PACK sz a AND 1 = a AND 1"
  unfolding PACK_def
  by (rule bit_word_eqI) (auto simp add: bit_simps dest: low3 [of _ 0])

lemma size_dvd8: "8 dvd uint (GET_SIZE m p)"
  unfolding dvd8_iff seven_mask GET_SIZE_def
  by (rule bit_word_eqI) (auto simp add: bit_simps)

lemma GET_SIZE_PUT_PACK: "8 dvd uint sz \<Longrightarrow> GET_SIZE (PUT m p (PACK sz a)) p = sz"
  unfolding GET_SIZE_def GET_PUT_same by (rule PACK_size)

lemma GET_ALLOC_PUT_PACK: "8 dvd uint sz \<Longrightarrow> GET_ALLOC (PUT m p (PACK sz a)) p = a AND 1"
  unfolding GET_ALLOC_def GET_PUT_same by (rule PACK_alloc)

lemma GET_SIZE_PUT_other:
  "q + 4 \<le> p \<or> p + 4 \<le> q \<Longrightarrow> GET_SIZE (PUT m p v) q = GET_SIZE m q"
  by (simp add: GET_SIZE_def GET_PUT_other)

lemma GET_ALLOC_PUT_other:
  "q + 4 \<le> p \<or> p + 4 \<le> q \<Longrightarrow> GET_ALLOC (PUT m p v) q = GET_ALLOC m q"
  by (simp add: GET_ALLOC_def GET_PUT_other)

lemma GET_SIZE_eq: "GET m p = PACK sz a \<Longrightarrow> 8 dvd uint sz \<Longrightarrow> GET_SIZE m p = sz"
  unfolding GET_SIZE_def by (simp only: PACK_size)

lemma GET_ALLOC_eq:
  "GET m p = PACK sz a \<Longrightarrow> 8 dvd uint sz \<Longrightarrow> a = 0 \<or> a = 1 \<Longrightarrow> GET_ALLOC m p = a"
  unfolding GET_ALLOC_def by (auto simp only: PACK_alloc) simp_all

lemma dvd8_cases: "8 dvd uint (w :: 32 word) \<Longrightarrow> uint w = 0 \<or> 8 \<le> uint w"
proof -
  assume "8 dvd uint w"
  then obtain k where k: "uint w = 8 * k" by (elim dvdE)
  have "0 \<le> uint w" by simp
  with k show ?thesis by arith
qed

text \<open>Conversions between \<open>uint32_t\<close> and \<open>size_t\<close>.\<close>

lemma ucast_up_down: "ucast (ucast (a :: 32 word) :: 64 word) = a"
  by (simp add: ucast_up_ucast_id is_up)

lemma uint_ucast_up: "uint (ucast (a :: 32 word) :: 64 word) = uint a"
  by (simp add: uint_up_ucast is_up)

lemma ucast_down_wi: "(ucast (x :: 64 word) :: 32 word) = word_of_int (uint x)"
  by transfer simp

lemma ucast_add64: "ucast ((ucast a :: 64 word) + ucast b) = (a + b :: 32 word)"
proof -
  have "uint a + uint b < 18446744073709551616" "0 \<le> uint a + uint b"
    using uint_lt2p [of a] uint_lt2p [of b] by simp_all
  then have "uint ((ucast a :: 64 word) + ucast b) = uint a + uint b"
    by (simp add: uint_word_ariths uint_ucast_up take_bit_eq_mod)
  then show ?thesis by (simp add: ucast_down_wi)
qed

lemma uint_sub64:
  "b \<le> a \<Longrightarrow> uint ((ucast (a :: 32 word) :: 64 word) - ucast (b :: 32 word)) = uint a - uint b"
proof -
  assume "b \<le> a"
  then have le: "uint b \<le> uint a" by (simp add: word_le_def)
  have "uint a < 4294967296" using uint_lt2p [of a] by simp
  moreover have "0 \<le> uint b" by simp
  ultimately have "uint a - uint b < 18446744073709551616" by linarith
  moreover from le have "0 \<le> uint a - uint b" by simp
  ultimately show ?thesis
    by (simp add: uint_word_ariths uint_ucast_up take_bit_eq_mod)
qed

lemma ucast_sub64: "b \<le> a \<Longrightarrow> ucast ((ucast a :: 64 word) - ucast b) = (a - b :: 32 word)"
  by (simp add: ucast_down_wi uint_sub64)

lemma split_test64:
  "b \<le> a \<Longrightarrow> ((16 :: 64 word) \<le> ucast a - ucast (b :: 32 word)) \<longleftrightarrow> 16 \<le> uint (a :: 32 word) - uint b"
  by (simp add: word_le_def uint_sub64)

lemma uint_sub32: "b \<le> a \<Longrightarrow> uint (a - b :: 32 word) = uint a - uint b"
  by (simp add: uint_sub_lem word_le_def)

lemma uint_add32: "uint a + uint b < 4294967296 \<Longrightarrow> uint (a + b :: 32 word) = uint a + uint b"
  using uint_add_lem [of a b] by simp

lemma dvd8_add: "8 dvd uint (a :: 32 word) \<Longrightarrow> 8 dvd uint b \<Longrightarrow> uint a + uint b < 4294967296 \<Longrightarrow> 8 dvd uint (a + b)"
  by (simp add: uint_add32)

lemma GET_SIZE_PUT_above: "q + 4 \<le> p \<Longrightarrow> GET_SIZE (PUT m p v) q = GET_SIZE m q"
  by (simp add: GET_SIZE_PUT_other)

lemma GET_SIZE_PUT_below: "p + 4 \<le> q \<Longrightarrow> GET_SIZE (PUT m p v) q = GET_SIZE m q"
  by (simp add: GET_SIZE_PUT_other)

lemma dvd8_sub:
  "8 dvd uint (a :: 32 word) \<Longrightarrow> 8 dvd uint b \<Longrightarrow> b \<le> a \<Longrightarrow> 8 dvd uint (a - b)"
  by (simp add: uint_sub32)

subsection \<open>The block sequence\<close>

lemma NEXT_BLKP_gt: "GET_SIZE m (HDRP p) \<noteq> 0 \<Longrightarrow> p < NEXT_BLKP m p"
  by (simp add: NEXT_BLKP_def HDRP_def uint_0_iff order_less_le)

lemma chain_le: "chain m p bs q \<Longrightarrow> p \<le> q"
proof (induction bs arbitrary: p)
  case Nil
  then show ?case by simp
next
  case (Cons b bs)
  then have "NEXT_BLKP m p \<le> q" by simp
  moreover have "p < NEXT_BLKP m p" using Cons.prems by (simp add: NEXT_BLKP_gt)
  ultimately show ?case by simp
qed

lemma chain_lt: "chain m p bs q \<Longrightarrow> b \<in> set bs \<Longrightarrow> b < q"
proof (induction bs arbitrary: p)
  case Nil
  then show ?case by simp
next
  case (Cons a bs)
  have nx: "p < NEXT_BLKP m p" using Cons.prems by (simp add: NEXT_BLKP_gt)
  have le: "NEXT_BLKP m p \<le> q" using Cons.prems by (auto dest: chain_le)
  show ?case
  proof (cases "b = a")
    case True
    with Cons.prems nx le show ?thesis by simp
  next
    case False
    with Cons show ?thesis by auto
  qed
qed

subsection \<open>The search\<close>

lemma find_fit_fwd_chain:
  "chain (mem s) (next_fit s) ys e \<Longrightarrow> GET_SIZE (mem s) (HDRP e) = 0 \<Longrightarrow>
   find_fit_fwd asize s =
     Some (case List.find (fits (mem s) asize) ys of
             None \<Rightarrow> (None, s\<lparr>next_fit := e\<rparr>)
           | Some b \<Rightarrow> (Some b, s\<lparr>next_fit := b\<rparr>))"
proof (induction ys arbitrary: s)
  case Nil
  then show ?case by (subst find_fit_fwd.simps) simp
next
  case (Cons b ys)
  let ?s' = "s\<lparr>next_fit := NEXT_BLKP (mem s) (next_fit s)\<rparr>"
  from Cons.prems have b: "b = next_fit s" and nz: "GET_SIZE (mem s) (HDRP (next_fit s)) \<noteq> 0"
    and ch: "chain (mem ?s') (next_fit ?s') ys e" by simp_all
  have IH: "find_fit_fwd asize ?s' =
     Some (case List.find (fits (mem s) asize) ys of
             None \<Rightarrow> (None, s\<lparr>next_fit := e\<rparr>)
           | Some b \<Rightarrow> (Some b, s\<lparr>next_fit := b\<rparr>))"
    using Cons.IH [OF ch] Cons.prems(2) by (simp split: option.splits)
  show ?case
    by (subst find_fit_fwd.simps) (simp add: nz b IH word_greater_zero_iff)
qed

lemma find_fit_wrap_chain:
  "chain (mem s) (next_fit s) xs c \<Longrightarrow>
   find_fit_wrap asize c s =
     Some (case List.find (fits (mem s) asize) xs of
             None \<Rightarrow> (None, s\<lparr>next_fit := c\<rparr>)
           | Some b \<Rightarrow> (Some b, s\<lparr>next_fit := b\<rparr>))"
proof (induction xs arbitrary: s)
  case Nil
  then show ?case by (subst find_fit_wrap.simps) simp
next
  case (Cons b xs)
  let ?s' = "s\<lparr>next_fit := NEXT_BLKP (mem s) (next_fit s)\<rparr>"
  from Cons.prems have b: "b = next_fit s"
    and ch: "chain (mem ?s') (next_fit ?s') xs c" by simp_all
  have lt: "next_fit s < c" using chain_lt [OF Cons.prems, of b] b by simp
  have IH: "find_fit_wrap asize c ?s' =
     Some (case List.find (fits (mem s) asize) xs of
             None \<Rightarrow> (None, s\<lparr>next_fit := c\<rparr>)
           | Some b \<Rightarrow> (Some b, s\<lparr>next_fit := b\<rparr>))"
    using Cons.IH [OF ch] by (simp split: option.splits)
  show ?case
    by (subst find_fit_wrap.simps) (simp add: lt b IH)
qed

lemma find_append_case:
  "List.find P (ys @ xs) = (case List.find P ys of None \<Rightarrow> List.find P xs | Some b \<Rightarrow> Some b)"
  by (induction ys) auto

lemma find_fit_chain:
  assumes "chain (mem s) (heap_listp s) xs (next_fit s)"
      and "chain (mem s) (next_fit s) ys e"
      and "GET_SIZE (mem s) (HDRP e) = 0"
  shows "find_fit asize s =
           Some (case List.find (fits (mem s) asize) (ys @ xs) of
                   None \<Rightarrow> (None, s)
                 | Some b \<Rightarrow> (Some b, s\<lparr>next_fit := b\<rparr>))"
proof (cases "List.find (fits (mem s) asize) ys")
  case (Some b)
  then show ?thesis
    using find_fit_fwd_chain [OF assms(2,3), of asize]
    by (simp add: find_fit_def find_append_case)
next
  case None
  let ?s1 = "s\<lparr>next_fit := heap_listp s\<rparr>"
  have fwd: "find_fit_fwd asize s = Some (None, s\<lparr>next_fit := e\<rparr>)"
    using find_fit_fwd_chain [OF assms(2,3), of asize] None by simp
  have "chain (mem ?s1) (next_fit ?s1) xs (next_fit s)" using assms(1) by simp
  from find_fit_wrap_chain [OF this, of asize]
  have "find_fit_wrap asize (next_fit s) ?s1 =
     Some (case List.find (fits (mem s) asize) xs of
             None \<Rightarrow> (None, s)
           | Some b \<Rightarrow> (Some b, s\<lparr>next_fit := b\<rparr>))"
    by (simp split: option.splits)
  then show ?thesis
    using fwd None by (simp add: find_fit_def find_append_case)
qed

text \<open>
  C1. Let the walk from the traversal start (\<open>heap_listp\<close>) visit the blocks \<open>xs\<close> and
  reach the cursor, and let the walk from the cursor visit the blocks \<open>ys\<close> and reach a
  header of size 0, the epilogue. Then \<open>find_fit\<close> returns, for every size, the first
  block of \<open>ys\<close> followed by \<open>xs\<close> that is free and at least as large as the request,
  and leaves the cursor on it; it returns null exactly when no block of either range
  fits, and then the cursor is where it started. The memory is never written.
\<close>

theorem find_fit_next_fit:
  assumes "chain (mem s) (heap_listp s) xs (next_fit s)"
      and "chain (mem s) (next_fit s) ys e"
      and "GET_SIZE (mem s) (HDRP e) = 0"
  shows "find_fit asize s =
           Some (case List.find (fits (mem s) asize) (ys @ xs) of
                   None \<Rightarrow> (None, s)
                 | Some b \<Rightarrow> (Some b, s\<lparr>next_fit := b\<rparr>))"
  using assms by (rule find_fit_chain)

theorem find_fit_next_fit_witness:
  "chain (mem heap5) (heap_listp heap5) [4104, 4112, 4128, 4144] (next_fit heap5)
   \<and> chain (mem heap5) (next_fit heap5) [] 8208
   \<and> GET_SIZE (mem heap5) (HDRP 8208) = 0
   \<and> find_fit 16 heap5 = Some (Some 4112, heap5\<lparr>next_fit := 4112\<rparr>)
   \<and> find_fit 24 heap5 = Some (None, heap5)
   \<and> chain (mem heap2) (heap_listp heap2) [4104] (next_fit heap2)
   \<and> chain (mem heap2) (next_fit heap2) [4112, 4128] 8208
   \<and> GET_SIZE (mem heap2) (HDRP 8208) = 0
   \<and> find_fit 16 heap2 = Some (Some 4128, heap2\<lparr>next_fit := 4128\<rparr>)"
  using find_fit_next_fit [of heap5 "[4104, 4112, 4128, 4144]" "[]" 8208 16]
        find_fit_next_fit [of heap5 "[4104, 4112, 4128, 4144]" "[]" 8208 24]
        find_fit_next_fit [of heap2 "[4104]" "[4112, 4128]" 8208 16]
  by (simp add: heaps codec reads fits_def)

subsection \<open>Placement\<close>

text \<open>\<open>place\<close> in full: the stores and the cursor.\<close>

lemma place_explicit:
  assumes A8: "8 dvd uint asize"
      and C: "GET_SIZE (mem s) (bp - 4) = C"
      and le: "asize \<le> C"
  shows "place bp asize s =
     (if 16 \<le> uint C - uint asize then
        s\<lparr>mem := PUT (PUT (PUT (PUT (mem s) (bp - 4) (PACK asize 1)) (bp + uint asize - 8) (PACK asize 1))
                    (bp + uint asize - 4) (PACK (C - asize) 0)) (bp + uint C - 8) (PACK (C - asize) 0),
          next_fit := (if next_fit s = bp + uint asize then bp + uint C else next_fit s)\<rparr>
      else
        s\<lparr>mem := PUT (PUT (mem s) (bp - 4) (PACK C 1)) (bp + uint C - 8) (PACK C 1),
          next_fit := (if next_fit s = bp then bp + uint C else next_fit s)\<rparr>)"
proof -
  have C8: "8 dvd uint C" using C size_dvd8 [of "mem s" "bp - 4"] by simp
  have R8: "8 dvd uint (C - asize)" using C8 A8 le by (rule dvd8_sub)
  have Ru: "uint (C - asize) = uint C - uint asize" using le by (rule uint_sub32)
  have A: "uint asize = 0 \<or> 8 \<le> uint asize" using A8 by (rule dvd8_cases)
  have Cc: "uint C = 0 \<or> 8 \<le> uint C" using C8 by (rule dvd8_cases)
  let ?m1 = "PUT (mem s) (bp - 4) (PACK asize 1)"
  let ?m2 = "PUT ?m1 (bp + uint asize - 8) (PACK asize 1)"
  let ?m3 = "PUT ?m2 (bp + uint asize - 4) (PACK (C - asize) 0)"
  let ?m4 = "PUT ?m3 (bp + uint C - 8) (PACK (C - asize) 0)"
  let ?n1 = "PUT (mem s) (bp - 4) (PACK C 1)"
  let ?n2 = "PUT ?n1 (bp + uint C - 8) (PACK C 1)"
  have s1: "GET_SIZE ?m1 (bp - 4) = asize" using A8 by (rule GET_SIZE_PUT_PACK)
  have s2: "GET_SIZE ?m2 (bp - 4) = asize"
    using A s1 by (auto simp add: GET_SIZE_PUT_other)
  have s3: "GET_SIZE ?m3 (bp + uint asize - 4) = C - asize" using R8 by (rule GET_SIZE_PUT_PACK)
  have s4: "GET_SIZE ?m4 (bp + uint asize - 4) = C - asize" if "16 \<le> uint C - uint asize"
    using that s3 by (simp add: GET_SIZE_PUT_other)
  have t1: "GET_SIZE ?n1 (bp - 4) = C" using C8 by (rule GET_SIZE_PUT_PACK)
  have t2: "GET_SIZE ?n2 (bp - 4) = C"
    using Cc t1 by (auto simp add: GET_SIZE_PUT_other)
  show ?thesis
  proof (cases "16 \<le> uint C - uint asize")
    case True
    with le show ?thesis
      by (simp add: place_def Let_def C split_test64 ucast_sub64 ucast_up_down
          HDRP_def FTRP_def NEXT_BLKP_def WSIZE_def DSIZE_def s1 s2 s3 s4 [OF True] Ru)
  next
    case False
    with le show ?thesis
      by (simp add: place_def Let_def C split_test64 ucast_sub64 ucast_up_down
          HDRP_def FTRP_def NEXT_BLKP_def WSIZE_def DSIZE_def t1 t2)
  qed
qed

text \<open>The tags \<open>place\<close> leaves, read back from the new memory.\<close>

lemma place_tags:
  assumes A8: "8 dvd uint asize"
      and A0: "asize \<noteq> 0"
      and le: "asize \<le> GET_SIZE (mem s) (HDRP bp)"
  shows "(let C = GET_SIZE (mem s) (HDRP bp); m' = mem (place bp asize s) in
     if 16 \<le> uint C - uint asize then
        m' = PUT (PUT (PUT (PUT (mem s)
               (HDRP bp) (PACK asize 1))
               (bp + uint asize - DSIZE) (PACK asize 1))
               (HDRP (bp + uint asize)) (PACK (C - asize) 0))
               (bp + uint C - DSIZE) (PACK (C - asize) 0)
        \<and> GET_SIZE m' (HDRP bp) = asize \<and> GET_ALLOC m' (HDRP bp) = 1
        \<and> GET_SIZE m' (bp + uint asize - DSIZE) = asize
        \<and> GET_ALLOC m' (bp + uint asize - DSIZE) = 1
        \<and> GET_SIZE m' (HDRP (bp + uint asize)) = C - asize
        \<and> GET_ALLOC m' (HDRP (bp + uint asize)) = 0
        \<and> GET_SIZE m' (bp + uint C - DSIZE) = C - asize
        \<and> GET_ALLOC m' (bp + uint C - DSIZE) = 0
     else
        m' = PUT (PUT (mem s) (HDRP bp) (PACK C 1)) (bp + uint C - DSIZE) (PACK C 1)
        \<and> GET_SIZE m' (HDRP bp) = C \<and> GET_ALLOC m' (HDRP bp) = 1
        \<and> GET_SIZE m' (bp + uint C - DSIZE) = C \<and> GET_ALLOC m' (bp + uint C - DSIZE) = 1)"
proof -
  define C where "C = GET_SIZE (mem s) (bp - 4)"
  have Cr: "GET_SIZE (mem s) (bp - 4) = C" by (simp add: C_def)
  have C8: "8 dvd uint C" by (simp add: C_def size_dvd8)
  have le': "asize \<le> C" using le by (simp add: C_def HDRP_def WSIZE_def)
  have R8: "8 dvd uint (C - asize)" using C8 A8 le' by (rule dvd8_sub)
  have x8: "8 \<le> uint asize" using dvd8_cases [OF A8] A0 by (auto simp add: uint_0_iff)
  have c8: "8 \<le> uint C" using x8 le' by (simp add: word_le_def)
  have fl: "(1 :: 32 word) = 0 \<or> (1 :: 32 word) = 1" "(0 :: 32 word) = 0 \<or> (0 :: 32 word) = 1"
    by simp_all
  note pe = place_explicit [OF A8 Cr le']
  show ?thesis
  proof (cases "16 \<le> uint C - uint asize")
    case True
    let ?m = "PUT (PUT (PUT (PUT (mem s) (bp - 4) (PACK asize 1)) (bp + uint asize - 8) (PACK asize 1))
                    (bp + uint asize - 4) (PACK (C - asize) 0)) (bp + uint C - 8) (PACK (C - asize) 0)"
    have m: "mem (place bp asize s) = ?m" using pe True by simp
    have g1: "GET ?m (bp - 4) = PACK asize 1" using x8 True by (simp add: GET_PUT_other GET_PUT_same)
    have g2: "GET ?m (bp + uint asize - 8) = PACK asize 1"
      using x8 True by (simp add: GET_PUT_other GET_PUT_same)
    have g3: "GET ?m (bp + uint asize - 4) = PACK (C - asize) 0"
      using x8 True by (simp add: GET_PUT_other GET_PUT_same)
    have g4: "GET ?m (bp + uint C - 8) = PACK (C - asize) 0" by (simp add: GET_PUT_same)
    note r = GET_SIZE_eq [OF g1 A8] GET_ALLOC_eq [OF g1 A8 fl(1)]
      GET_SIZE_eq [OF g2 A8] GET_ALLOC_eq [OF g2 A8 fl(1)]
      GET_SIZE_eq [OF g3 R8] GET_ALLOC_eq [OF g3 R8 fl(2)]
      GET_SIZE_eq [OF g4 R8] GET_ALLOC_eq [OF g4 R8 fl(2)]
    show ?thesis
      unfolding Let_def HDRP_def WSIZE_def DSIZE_def m Cr
      using True r by simp
  next
    case False
    let ?m = "PUT (PUT (mem s) (bp - 4) (PACK C 1)) (bp + uint C - 8) (PACK C 1)"
    have m: "mem (place bp asize s) = ?m" using pe False by simp
    have g1: "GET ?m (bp - 4) = PACK C 1" using c8 by (simp add: GET_PUT_other GET_PUT_same)
    have g2: "GET ?m (bp + uint C - 8) = PACK C 1" by (simp add: GET_PUT_same)
    note r = GET_SIZE_eq [OF g1 C8] GET_ALLOC_eq [OF g1 C8 fl(1)]
      GET_SIZE_eq [OF g2 C8] GET_ALLOC_eq [OF g2 C8 fl(1)]
    show ?thesis
      unfolding Let_def HDRP_def WSIZE_def DSIZE_def m Cr
      using False r by simp
  qed
qed

text \<open>
  C3. Let the block \<open>bp\<close> have size \<open>C\<close> in its header and let the adjusted size \<open>A\<close>,
  a positive multiple of 8, be at most \<open>C\<close>. When \<open>C - A\<close> is at least 16, \<open>place\<close>
  splits: afterwards the header of \<open>bp\<close> and the footer \<open>A\<close> bytes on read size \<open>A\<close>
  with the allocated flag 1, and the header and the footer of the region that follows,
  which ends where the block ended, read size \<open>C - A\<close> with the flag 0. Otherwise the
  header and the footer of the whole block read size \<open>C\<close> with the flag 1. In both cases
  the new memory is the old one with just these words stored.
\<close>

theorem place_split_or_consume:
  assumes A8: "8 dvd uint asize"
      and A0: "asize \<noteq> 0"
      and le: "asize \<le> GET_SIZE (mem s) (HDRP bp)"
  shows "(let C = GET_SIZE (mem s) (HDRP bp); m' = mem (place bp asize s) in
     if 16 \<le> uint C - uint asize then
        m' = PUT (PUT (PUT (PUT (mem s)
               (HDRP bp) (PACK asize 1))
               (bp + uint asize - DSIZE) (PACK asize 1))
               (HDRP (bp + uint asize)) (PACK (C - asize) 0))
               (bp + uint C - DSIZE) (PACK (C - asize) 0)
        \<and> GET_SIZE m' (HDRP bp) = asize \<and> GET_ALLOC m' (HDRP bp) = 1
        \<and> GET_SIZE m' (bp + uint asize - DSIZE) = asize
        \<and> GET_ALLOC m' (bp + uint asize - DSIZE) = 1
        \<and> GET_SIZE m' (HDRP (bp + uint asize)) = C - asize
        \<and> GET_ALLOC m' (HDRP (bp + uint asize)) = 0
        \<and> GET_SIZE m' (bp + uint C - DSIZE) = C - asize
        \<and> GET_ALLOC m' (bp + uint C - DSIZE) = 0
     else
        m' = PUT (PUT (mem s) (HDRP bp) (PACK C 1)) (bp + uint C - DSIZE) (PACK C 1)
        \<and> GET_SIZE m' (HDRP bp) = C \<and> GET_ALLOC m' (HDRP bp) = 1
        \<and> GET_SIZE m' (bp + uint C - DSIZE) = C \<and> GET_ALLOC m' (bp + uint C - DSIZE) = 1)"
  using assms by (rule place_tags)

theorem place_split_or_consume_witness:
  "8 dvd uint (16 :: 32 word) \<and> (16 :: 32 word) \<noteq> 0 \<and> 16 \<le> GET_SIZE (mem heap1) (HDRP 4112)
   \<and> GET_SIZE (mem heap1) (HDRP 4112) = 4096
   \<and> GET (mem (place 4112 16 heap1)) 4108 = 17
   \<and> GET (mem (place 4112 16 heap1)) 4120 = 17
   \<and> GET (mem (place 4112 16 heap1)) 4124 = 4080
   \<and> GET (mem (place 4112 16 heap1)) 8200 = 4080
   \<and> GET_ALLOC (mem (place 4112 16 heap1)) 4108 = 1
   \<and> GET_ALLOC (mem (place 4112 16 heap1)) 4124 = 0
   \<and> 8 dvd uint (4064 :: 32 word) \<and> (4064 :: 32 word) \<noteq> 0
   \<and> 4064 \<le> GET_SIZE (mem heap3) (HDRP 4144)
   \<and> GET_SIZE (mem heap3) (HDRP 4144) = 4064
   \<and> GET (mem (place 4144 4064 heap3)) 4140 = 4065
   \<and> GET (mem (place 4144 4064 heap3)) 8200 = 4065
   \<and> GET_ALLOC (mem (place 4144 4064 heap3)) 4140 = 1"
proof -
  have a: "8 dvd uint (16 :: 32 word)" "(16 :: 32 word) \<noteq> 0" "16 \<le> GET_SIZE (mem heap1) (HDRP 4112)"
    by (simp_all add: heaps codec reads)
  have b: "8 dvd uint (4064 :: 32 word)" "(4064 :: 32 word) \<noteq> 0"
    "4064 \<le> GET_SIZE (mem heap3) (HDRP 4144)"
    by (simp_all add: heaps codec reads)
  have s1: "GET_SIZE (mem heap1) 4108 = 4096" and s3: "GET_SIZE (mem heap3) 4140 = 4064"
    by (simp_all add: heaps codec reads)
  show ?thesis
    using a b place_split_or_consume [OF a] place_split_or_consume [OF b]
    by (simp add: s1 s3 HDRP_def WSIZE_def DSIZE_def Let_def GET_PUT_same GET_PUT_other PACK_def GET_ALLOC_def)
qed

subsection \<open>A session, step by step\<close>

lemma init_boot: "mm_init boot = (0, heap1)"
  by (simp add: ops heaps codec reads)

lemma malloc_heap1: "mm_malloc 8 heap1 = Some (Some 4112, heap2)"
  by (simp add: ops heaps codec reads)

lemma malloc_heap2: "mm_malloc 8 heap2 = Some (Some 4128, heap3)"
  by (simp add: ops heaps codec reads)

lemma malloc_heap3: "mm_malloc 4056 heap3 = Some (Some 4144, heap4)"
  by (simp add: ops heaps codec reads)

lemma free_heap4: "mm_free 4112 heap4 = heap5"
  by (simp add: ops heaps codec reads)

lemma malloc_heap5: "mm_malloc 4294967288 heap5 = Some (Some 4112, heap6)"
  by (simp add: ops heaps codec reads)

lemma free_heap6: "mm_free 4112 heap6 = heap7"
  by (simp add: ops heaps codec reads)

lemma free_heap7: "mm_free 4144 heap7 = heap8"
  by (simp add: ops heaps codec reads)

text \<open>
  C4. After \<open>mm_init\<close> on a fresh 20 MB region, the requests \<open>malloc(8)\<close> (returns
  4112), \<open>malloc(8)\<close> (4128), \<open>malloc(4056)\<close> (4144), \<open>free(4112)\<close>,
  \<open>malloc(4294967288)\<close> (returns 4112 again), \<open>free(4112)\<close>, \<open>free(4144)\<close> free only
  blocks that were handed out and not yet released. They end in a heap whose walk from
  \<open>heap_listp\<close> to the epilogue is prologue, 4112, 4144, where the blocks 4112 (32 bytes)
  and 4144 (4064 bytes) are physically adjacent and both free. The request of
  4294967288 bytes gets the adjusted size 0 (the 32-bit sum wraps); \<open>place\<close> then writes
  the footer of a size-0 block onto the prologue's footer, and the next \<open>coalesce\<close>
  takes block 4112 for its own predecessor.
\<close>

theorem adjacent_free_blocks_reached:
  "run [Allocate 8, Allocate 8, Allocate 4056, Release 4112, Allocate 4294967288,
        Release 4112, Release 4144] [] (snd (mm_init boot)) = Some ([4128], heap8)
   \<and> chain (mem heap8) (heap_listp heap8) [4104, 4112, 4144] (mem_brk heap8)
   \<and> GET (mem heap8) (HDRP 4112) = PACK 32 0
   \<and> GET (mem heap8) (HDRP 4144) = PACK 4064 0
   \<and> GET (mem heap8) (HDRP (mem_brk heap8)) = PACK 0 1
   \<and> free_pair (mem heap8) [4104, 4112, 4144]"
proof -
  have r: "run [Allocate 8, Allocate 8, Allocate 4056, Release 4112, Allocate 4294967288,
        Release 4112, Release 4144] [] (snd (mm_init boot)) = Some ([4128], heap8)"
    by (simp add: init_boot malloc_heap1 malloc_heap2 malloc_heap3 free_heap4 malloc_heap5
        free_heap6 free_heap7)
  have c: "chain (mem heap8) (heap_listp heap8) [4104, 4112, 4144] (mem_brk heap8)"
    by (simp add: heaps codec reads)
  have h: "GET (mem heap8) (HDRP 4112) = PACK 32 0" "GET (mem heap8) (HDRP 4144) = PACK 4064 0"
     "GET (mem heap8) (HDRP (mem_brk heap8)) = PACK 0 1"
    by (simp_all add: heaps codec reads)
  have f: "free_pair (mem heap8) [4104, 4112, 4144]"
    by (simp add: heaps codec reads)
  show ?thesis by (intro conjI r c h f)
qed

text \<open>
  C6. On the heap after \<open>mm_init\<close>, the search for 16 bytes leaves the cursor on block
  4112, and \<open>place\<close> splits that block: 4112 becomes an allocated block of 16 bytes and
  the remainder 4128 a free block of 4080 bytes. The cursor is still 4112 afterwards, the
  block just allocated, not the remainder: in the split branch \<open>place\<close> compares the
  cursor with the remainder's address, which it never equals.
\<close>

theorem place_split_leaves_cursor:
  "find_fit 16 heap1 = Some (Some 4112, heap1\<lparr>next_fit := 4112\<rparr>)
   \<and> place 4112 16 (heap1\<lparr>next_fit := 4112\<rparr>) = heap2
   \<and> GET (mem heap2) (HDRP 4112) = PACK 16 1
   \<and> NEXT_BLKP (mem heap2) 4112 = 4128
   \<and> GET (mem heap2) (HDRP 4128) = PACK 4080 0
   \<and> next_fit heap2 = 4112"
  by (simp add: ops heaps codec reads)

text \<open>
  C7. On the heap after \<open>mm_init\<close> (one free block of 4096 bytes), a request of
  2147483648 bytes has the adjusted size 2147483656, which no free block fits. \<open>MAX\<close>
  compares its arguments as \<open>int\<close>, where that size is negative, so the heap grows by
  the 4096-byte chunk and not by the adjusted size. \<open>place\<close> then stores the footer of
  a block of 2147483656 bytes at address 2147487760, far above \<open>mem_max_addr\<close>, where
  the C program is undefined; in the model the store goes through and \<open>mm_malloc\<close>
  returns the block.
\<close>

theorem growth_ignores_huge_request:
  "find_fit (ucast (adjusted_size 2147483648)) heap1 = Some (None, heap1)
   \<and> adjusted_size 2147483648 = 2147483656
   \<and> (\<exists>s'. mm_malloc 2147483648 heap1 = Some (Some 4112, s') \<and> mem_brk s' = mem_brk heap1 + 4096
          \<and> GET (mem s') 2147487760 = 2147483657)
   \<and> GET (mem heap1) 2147487760 = 0
   \<and> mem_max_addr heap1 < 2147487760"
  by (simp add: ops heaps codec reads)

subsection \<open>Coalescing\<close>

lemma coalesce_local:
  assumes c_pos: "GET_SIZE (mem s) (HDRP bp) \<noteq> 0"
      and p_pos: "GET_SIZE (mem s) (bp - DSIZE) \<noteq> 0"
      and p_tag: "GET_SIZE (mem s) (HDRP (PREV_BLKP (mem s) bp)) = GET_SIZE (mem s) (bp - DSIZE)"
      and n_tag: "GET_ALLOC (mem s) (HDRP (NEXT_BLKP (mem s) bp)) = 0 \<Longrightarrow>
                  GET_SIZE (mem s) (FTRP (mem s) (NEXT_BLKP (mem s) bp)) =
                  GET_SIZE (mem s) (HDRP (NEXT_BLKP (mem s) bp))"
      and bound: "uint (GET_SIZE (mem s) (bp - DSIZE)) + uint (GET_SIZE (mem s) (HDRP bp))
                  + uint (GET_SIZE (mem s) (HDRP (NEXT_BLKP (mem s) bp))) < 2 ^ 32"
  shows "coalesce bp s =
     (let m = mem s; P = PREV_BLKP m bp; N = NEXT_BLKP m bp;
          c = GET_SIZE m (HDRP bp); ps = GET_SIZE m (bp - DSIZE); ns = GET_SIZE m (HDRP N);
          prev_alloc = GET_ALLOC m (bp - DSIZE); next_alloc = GET_ALLOC m (HDRP N);
          cursor = (\<lambda>r n. if r \<le> next_fit s \<and> next_fit s < r + uint n then r else next_fit s)
      in if prev_alloc \<noteq> 0 \<and> next_alloc \<noteq> 0 then (bp, s)
         else if prev_alloc \<noteq> 0 then
           (bp, s\<lparr>mem := PUT (PUT m (HDRP bp) (PACK (c + ns) 0)) (FTRP m N) (PACK (c + ns) 0),
                   next_fit := cursor bp (c + ns)\<rparr>)
         else if next_alloc \<noteq> 0 then
           (P, s\<lparr>mem := PUT (PUT m (FTRP m bp) (PACK (c + ps) 0)) (HDRP P) (PACK (c + ps) 0),
                  next_fit := cursor P (c + ps)\<rparr>)
         else
           (P, s\<lparr>mem := PUT (PUT m (HDRP P) (PACK (c + (ps + ns)) 0)) (FTRP m N) (PACK (c + (ps + ns)) 0),
                  next_fit := cursor P (c + (ps + ns))\<rparr>))
   \<and> uint (GET_SIZE (mem s) (HDRP bp) + (GET_SIZE (mem s) (bp - DSIZE) + GET_SIZE (mem s) (HDRP (NEXT_BLKP (mem s) bp))))
       = uint (GET_SIZE (mem s) (HDRP bp)) + uint (GET_SIZE (mem s) (bp - DSIZE))
         + uint (GET_SIZE (mem s) (HDRP (NEXT_BLKP (mem s) bp)))"
proof -
  define m where "m = mem s"
  define c where "c = GET_SIZE m (bp - 4)"
  define ps where "ps = GET_SIZE m (bp - 8)"
  define ns where "ns = GET_SIZE m (bp + uint c - 4)"
  have c8: "8 \<le> uint c" using c_pos dvd8_cases [OF size_dvd8, of m "bp - 4"]
    by (auto simp add: c_def m_def HDRP_def WSIZE_def uint_0_iff)
  have p8: "8 \<le> uint ps" using p_pos dvd8_cases [OF size_dvd8, of m "bp - 8"]
    by (auto simp add: ps_def m_def DSIZE_def uint_0_iff)
  have n0: "0 \<le> uint ns" by simp
  have bnd: "uint ps + uint c + uint ns < 4294967296"
    using bound by (simp add: ps_def c_def ns_def m_def codec)
  have ptag: "GET_SIZE m (bp - uint ps - 4) = ps"
    using p_tag by (simp add: ps_def m_def codec)
  have ntag: "GET_SIZE m (bp + uint c + uint ns - 8) = ns" if "GET_ALLOC m (bp + uint c - 4) = 0"
    using n_tag that by (simp add: ns_def c_def m_def HDRP_def FTRP_def NEXT_BLKP_def WSIZE_def DSIZE_def)
  have "uint c + uint ns < 4294967296" using bnd p8 by linarith
  then have u_cn: "uint (c + ns) = uint c + uint ns" by (rule uint_add32)
  have "uint c + uint ps < 4294967296" using bnd n0 by linarith
  then have u_cp: "uint (c + ps) = uint c + uint ps" by (rule uint_add32)
  have "uint ps + uint ns < 4294967296" using bnd c8 by linarith
  then have u_pn: "uint (ps + ns) = uint ps + uint ns" by (rule uint_add32)
  have "uint c + uint (ps + ns) < 4294967296" using bnd u_pn by linarith
  then have "uint (c + (ps + ns)) = uint c + uint (ps + ns)" by (rule uint_add32)
  then have u_all: "uint (c + (ps + ns)) = uint c + uint ps + uint ns" using u_pn by simp
  have d_c: "8 dvd uint c" "8 dvd uint ps" "8 dvd uint ns" by (simp_all add: c_def ps_def ns_def size_dvd8)
  have d_cn: "8 dvd uint (c + ns)" using d_c by (simp add: u_cn)
  have d_cp: "8 dvd uint (c + ps)" using d_c by (simp add: u_cp)
  have d_all: "8 dvd uint (c + (ps + ns))" using d_c by (simp add: u_all)
  have last: "uint (c + (ps + ns)) = uint c + uint ps + uint ns" by (rule u_all)
  note hd = HDRP_def WSIZE_def DSIZE_def
  have nx: "NEXT_BLKP m bp = bp + uint c" by (simp add: NEXT_BLKP_def hd c_def)
  have pv: "PREV_BLKP m bp = bp - uint ps" by (simp add: PREV_BLKP_def hd ps_def)
  have fb: "FTRP m bp = bp + uint c - 8" by (simp add: FTRP_def hd c_def)
  have fp: "FTRP m (bp - uint ps) = bp - 8" by (simp add: FTRP_def hd ptag)
  have fn: "FTRP m (bp + uint c) = bp + uint c + uint ns - 8" by (simp add: FTRP_def hd ns_def)
  have sz: "GET_SIZE m (bp - 4) = c" "GET_SIZE m (bp + uint c - 4) = ns"
    by (simp_all add: c_def ns_def)
  have main: "coalesce bp s =
     (if GET_ALLOC m (bp - 8) \<noteq> 0 \<and> GET_ALLOC m (bp + uint c - 4) \<noteq> 0 then (bp, s)
         else if GET_ALLOC m (bp - 8) \<noteq> 0 then
           (bp, s\<lparr>mem := PUT (PUT m (bp - 4) (PACK (c + ns) 0)) (bp + uint c + uint ns - 8) (PACK (c + ns) 0),
                   next_fit := (if bp \<le> next_fit s \<and> next_fit s < bp + uint (c + ns) then bp else next_fit s)\<rparr>)
         else if GET_ALLOC m (bp + uint c - 4) \<noteq> 0 then
           (bp - uint ps, s\<lparr>mem := PUT (PUT m (bp + uint c - 8) (PACK (c + ps) 0)) (bp - uint ps - 4) (PACK (c + ps) 0),
                  next_fit := (if bp - uint ps \<le> next_fit s \<and> next_fit s < bp - uint ps + uint (c + ps) then bp - uint ps else next_fit s)\<rparr>)
         else
           (bp - uint ps, s\<lparr>mem := PUT (PUT m (bp - uint ps - 4) (PACK (c + (ps + ns)) 0)) (bp + uint c + uint ns - 8) (PACK (c + (ps + ns)) 0),
                  next_fit := (if bp - uint ps \<le> next_fit s \<and> next_fit s < bp - uint ps + uint (c + (ps + ns)) then bp - uint ps else next_fit s)\<rparr>))"
  proof -
    \<comment> \<open>only the successor is free\<close>
    let ?v2 = "PACK (c + ns) 0"
    let ?a1 = "PUT m (bp - 4) ?v2"
    let ?a2 = "PUT ?a1 (bp + uint c + uint ns - 8) ?v2"
    have a1: "FTRP ?a1 bp = bp + uint c + uint ns - 8"
      by (simp add: FTRP_def hd GET_SIZE_PUT_PACK [OF d_cn] u_cn)
    have o1: "bp - 4 + 4 \<le> bp + uint c + uint ns - 8" using c8 n0 by linarith
    have o2: "bp - 8 + 4 \<le> bp + uint c + uint ns - 8" using c8 n0 by linarith
    have o3: "bp - uint ps - 4 + 4 \<le> bp + uint c + uint ns - 8" using c8 p8 n0 by linarith
    have "GET_SIZE ?a2 (bp - 4) = c + ns"
      by (simp add: GET_SIZE_PUT_above [OF o1] GET_SIZE_PUT_PACK [OF d_cn])
    then have a2: "NEXT_BLKP ?a2 bp = bp + uint (c + ns)" by (simp add: NEXT_BLKP_def hd)
    \<comment> \<open>only the predecessor is free\<close>
    let ?v3 = "PACK (c + ps) 0"
    let ?b1 = "PUT m (bp + uint c - 8) ?v3"
    let ?b2 = "PUT ?b1 (bp - uint ps - 4) ?v3"
    have "GET_SIZE ?b1 (bp - 8) = ps"
      using c8 by (simp add: GET_SIZE_PUT_other ps_def)
    then have b1: "PREV_BLKP ?b1 bp = bp - uint ps" by (simp add: PREV_BLKP_def hd)
    have "GET_SIZE ?b2 (bp - 8) = ps"
      using c8 p8 by (simp add: GET_SIZE_PUT_other ps_def)
    then have b2: "PREV_BLKP ?b2 bp = bp - uint ps" by (simp add: PREV_BLKP_def hd)
    have "GET_SIZE ?b2 (bp - uint ps - 4) = c + ps"
      by (simp add: GET_SIZE_PUT_PACK [OF d_cp])
    then have b3: "NEXT_BLKP ?b2 (bp - uint ps) = bp - uint ps + uint (c + ps)"
      by (simp add: NEXT_BLKP_def hd)
    \<comment> \<open>both are free\<close>
    let ?v4 = "PACK (c + (ps + ns)) 0"
    let ?c1 = "PUT m (bp - uint ps - 4) ?v4"
    let ?c2 = "PUT ?c1 (bp + uint c + uint ns - 8) ?v4"
    have "GET_SIZE ?c1 (bp - 4) = c"
      using p8 by (simp add: GET_SIZE_PUT_other c_def)
    then have c1: "NEXT_BLKP ?c1 bp = bp + uint c" by (simp add: NEXT_BLKP_def hd)
    have "GET_SIZE ?c1 (bp + uint c - 4) = ns"
      using p8 c8 by (simp add: GET_SIZE_PUT_other ns_def)
    then have c2: "FTRP ?c1 (bp + uint c) = bp + uint c + uint ns - 8" by (simp add: FTRP_def hd)
    have "GET_SIZE ?c2 (bp - 8) = ps"
      using p8 by (simp add: GET_SIZE_PUT_above [OF o2] GET_SIZE_PUT_other ps_def)
    then have c3: "PREV_BLKP ?c2 bp = bp - uint ps" by (simp add: PREV_BLKP_def hd)
    have "GET_SIZE ?c2 (bp - uint ps - 4) = c + (ps + ns)"
      by (simp add: GET_SIZE_PUT_above [OF o3] GET_SIZE_PUT_PACK [OF d_all])
    then have c4: "NEXT_BLKP ?c2 (bp - uint ps) = bp - uint ps + uint (c + (ps + ns))"
      by (simp add: NEXT_BLKP_def hd)
    show ?thesis
    proof (cases "GET_ALLOC m (bp + uint c - 4) = 0")
      case True
      then show ?thesis
        by (simp add: coalesce_def Let_def m_def [symmetric] hd nx pv fb fp fn sz ptag ntag [OF True]
            ucast_add64 ucast_up_down a1 a2 b1 b2 b3 c1 c2 c3 c4)
    next
      case False
      then show ?thesis
        by (simp add: coalesce_def Let_def m_def [symmetric] hd nx pv fb fp fn sz ptag
            ucast_add64 ucast_up_down a1 a2 b1 b2 b3 c1 c2 c3 c4)
    qed
  qed
  show ?thesis
    using last
    by (simp add: Let_def m_def [symmetric] hd nx pv fb fn sz ps_def [symmetric] main)
qed

text \<open>
  C2. Let block \<open>bp\<close> and the footer before it carry non-zero sizes, let the
  predecessor's header carry the size of its footer and the successor, when it is free,
  a footer with the size of its header, and let the three sizes add up to less than
  4 GB. With the allocated
  flags read from the predecessor's footer and the successor's header, \<open>coalesce\<close>
  \<^item> returns \<open>bp\<close> and changes nothing when both are allocated;
  \<^item> returns \<open>bp\<close> after storing the size of \<open>bp\<close> plus the successor's, free, in the
    header of \<open>bp\<close> and at the successor's footer, when only the successor is free;
  \<^item> returns the predecessor after storing the size of \<open>bp\<close> plus the predecessor's,
    free, at the footer of \<open>bp\<close> and in the predecessor's header, when only the
    predecessor is free;
  \<^item> returns the predecessor after storing the sum of the three sizes, free, in the
    predecessor's header and at the successor's footer, when both are free.
  In the three merging cases a cursor inside the merged block moves to its start. The
  sum of the three sizes does not wrap.
\<close>

theorem coalesce_cases:
  assumes c_pos: "GET_SIZE (mem s) (HDRP bp) \<noteq> 0"
      and p_pos: "GET_SIZE (mem s) (bp - DSIZE) \<noteq> 0"
      and p_tag: "GET_SIZE (mem s) (HDRP (PREV_BLKP (mem s) bp)) = GET_SIZE (mem s) (bp - DSIZE)"
      and n_tag: "GET_ALLOC (mem s) (HDRP (NEXT_BLKP (mem s) bp)) = 0 \<Longrightarrow>
                  GET_SIZE (mem s) (FTRP (mem s) (NEXT_BLKP (mem s) bp)) =
                  GET_SIZE (mem s) (HDRP (NEXT_BLKP (mem s) bp))"
      and bound: "uint (GET_SIZE (mem s) (bp - DSIZE)) + uint (GET_SIZE (mem s) (HDRP bp))
                  + uint (GET_SIZE (mem s) (HDRP (NEXT_BLKP (mem s) bp))) < 2 ^ 32"
  shows "coalesce bp s =
     (let m = mem s; P = PREV_BLKP m bp; N = NEXT_BLKP m bp;
          c = GET_SIZE m (HDRP bp); ps = GET_SIZE m (bp - DSIZE); ns = GET_SIZE m (HDRP N);
          prev_alloc = GET_ALLOC m (bp - DSIZE); next_alloc = GET_ALLOC m (HDRP N);
          cursor = (\<lambda>r n. if r \<le> next_fit s \<and> next_fit s < r + uint n then r else next_fit s)
      in if prev_alloc \<noteq> 0 \<and> next_alloc \<noteq> 0 then (bp, s)
         else if prev_alloc \<noteq> 0 then
           (bp, s\<lparr>mem := PUT (PUT m (HDRP bp) (PACK (c + ns) 0)) (FTRP m N) (PACK (c + ns) 0),
                   next_fit := cursor bp (c + ns)\<rparr>)
         else if next_alloc \<noteq> 0 then
           (P, s\<lparr>mem := PUT (PUT m (FTRP m bp) (PACK (c + ps) 0)) (HDRP P) (PACK (c + ps) 0),
                  next_fit := cursor P (c + ps)\<rparr>)
         else
           (P, s\<lparr>mem := PUT (PUT m (HDRP P) (PACK (c + (ps + ns)) 0)) (FTRP m N) (PACK (c + (ps + ns)) 0),
                  next_fit := cursor P (c + (ps + ns))\<rparr>))
   \<and> uint (GET_SIZE (mem s) (HDRP bp) + (GET_SIZE (mem s) (bp - DSIZE) + GET_SIZE (mem s) (HDRP (NEXT_BLKP (mem s) bp))))
       = uint (GET_SIZE (mem s) (HDRP bp)) + uint (GET_SIZE (mem s) (bp - DSIZE))
         + uint (GET_SIZE (mem s) (HDRP (NEXT_BLKP (mem s) bp)))"
  using assms by (rule coalesce_local)

theorem coalesce_cases_witness:
  "GET_SIZE (mem (mark_free 4128 (mark_free 4112 heap3))) (HDRP 4128) \<noteq> 0
   \<and> GET_SIZE (mem (mark_free 4128 (mark_free 4112 heap3))) (4128 - DSIZE) \<noteq> 0
   \<and> coalesce 4112 (mark_free 4112 heap4) = (4112, mark_free 4112 heap4)
   \<and> coalesce 4144 (mark_free 4144 heap4) = (4144, mark_free 4144 heap4)
   \<and> coalesce 4128 (mark_free 4128 heap3) =
        (4128, (mark_free 4128 heap3)\<lparr>mem := PUT (PUT (mem (mark_free 4128 heap3)) 4124 4080) 8200 4080,
                                         next_fit := 4128\<rparr>)
   \<and> coalesce 4128 (mark_free 4128 heap5) =
        (4112, (mark_free 4128 heap5)\<lparr>mem := PUT (PUT (mem (mark_free 4128 heap5)) 4136 32) 4108 32\<rparr>)
   \<and> coalesce 4128 (mark_free 4128 (mark_free 4112 heap3)) =
        (4112, (mark_free 4128 (mark_free 4112 heap3))\<lparr>mem :=
                  PUT (PUT (mem (mark_free 4128 (mark_free 4112 heap3))) 4108 4096) 8200 4096,
                next_fit := 4112\<rparr>)"
proof -
  have h: "GET_SIZE (mem (mark_free 4128 (mark_free 4112 heap3))) (HDRP 4128) \<noteq> 0"
     "GET_SIZE (mem (mark_free 4128 (mark_free 4112 heap3))) (4128 - DSIZE) \<noteq> 0"
    by (simp_all add: mark_free_def Let_def heaps codec reads)
  have w1: "coalesce 4112 (mark_free 4112 heap4) = (4112, mark_free 4112 heap4)"
    using coalesce_cases [of "mark_free 4112 heap4" 4112]
    by (simp add: mark_free_def Let_def heaps codec reads)
  have w0: "coalesce 4144 (mark_free 4144 heap4) = (4144, mark_free 4144 heap4)"
    using coalesce_cases [of "mark_free 4144 heap4" 4144]
    by (simp add: mark_free_def Let_def heaps codec reads)
  have w2: "coalesce 4128 (mark_free 4128 heap3) =
     (4128, (mark_free 4128 heap3)\<lparr>mem := PUT (PUT (mem (mark_free 4128 heap3)) 4124 4080) 8200 4080,
                                      next_fit := 4128\<rparr>)"
    using coalesce_cases [of "mark_free 4128 heap3" 4128]
    by (simp add: mark_free_def Let_def heaps codec reads)
  have w3: "coalesce 4128 (mark_free 4128 heap5) =
     (4112, (mark_free 4128 heap5)\<lparr>mem := PUT (PUT (mem (mark_free 4128 heap5)) 4136 32) 4108 32\<rparr>)"
    using coalesce_cases [of "mark_free 4128 heap5" 4128]
    by (simp add: mark_free_def Let_def heaps codec reads)
  have w4: "coalesce 4128 (mark_free 4128 (mark_free 4112 heap3)) =
     (4112, (mark_free 4128 (mark_free 4112 heap3))\<lparr>mem :=
               PUT (PUT (mem (mark_free 4128 (mark_free 4112 heap3))) 4108 4096) 8200 4096,
             next_fit := 4112\<rparr>)"
    using coalesce_cases [of "mark_free 4128 (mark_free 4112 heap3)" 4128]
    by (simp add: mark_free_def Let_def heaps codec reads)
  show ?thesis by (intro conjI h w1 w0 w2 w3 w4)
qed

subsection \<open>Allocation\<close>

text \<open>
  C8. The heap after \<open>mm_init\<close> on a fresh 20 MB region is prologue, one free block of
  4096 bytes at 4112, epilogue. A request of 4294967295 bytes fits no block, and the
  region cannot grow by that much: \<open>mem_sbrk\<close> refuses. \<open>mm_malloc\<close> does not return
  null: it rounds the size in 32 bits to the adjusted size 8, finds that block 4112 fits
  8 bytes, carves a block of 8 bytes in all (header word 9, no payload) out of it and
  returns 4112. \<open>mem_sbrk\<close> is never asked.
\<close>

theorem mm_malloc_huge_request_not_null:
  "chain (mem heap1) (heap_listp heap1) [4104, 4112] (mem_brk heap1)
   \<and> GET (mem heap1) (HDRP 4104) = 9
   \<and> GET (mem heap1) (HDRP 4112) = 4096
   \<and> GET (mem heap1) (HDRP (mem_brk heap1)) = 1
   \<and> fst (mem_sbrk 4294967295 heap1) = None
   \<and> mm_malloc 4294967295 heap1 = Some (Some 4112, heap_short)
   \<and> GET (mem heap_short) (HDRP 4112) = 9
   \<and> mem_brk heap_short = mem_brk heap1"
  by (simp add: heap_short_def ops heaps codec reads)

subsection \<open>Size rounding\<close>

text \<open>
  Up to 4294967280 bytes the rounding does not wrap: the adjusted size is the least
  multiple of 8 that is at least the request plus 8, and at least 16.
\<close>

lemma adjusted_size_in_range:
  assumes "sz \<noteq> 0" and "uint sz \<le> 4294967280"
  shows "uint (adjusted_size sz) = 8 * ((uint sz + 15) div 8)"
    and "8 dvd uint (adjusted_size sz)"
    and "uint sz + 8 \<le> uint (adjusted_size sz)"
    and "uint (adjusted_size sz) < uint sz + 16"
    and "16 \<le> uint (adjusted_size sz)"
proof -
  have pos: "0 < uint sz" using assms(1) by (simp add: word_greater_zero_iff [symmetric] word_less_def)
  have eq: "uint (adjusted_size sz) = 8 * ((uint sz + 15) div 8)"
  proof (cases "sz \<le> 8")
    case True
    then have "uint sz \<le> 8" by (simp add: word_le_def)
    with pos have "8 * ((uint sz + 15) div 8) = 16" by arith
    with True show ?thesis by (simp add: adjusted_size_def)
  next
    case False
    have a: "uint (15 + sz) = uint sz + 15"
      using assms(2) by (simp add: uint_word_ariths take_bit_eq_mod)
    have b: "uint ((15 + sz) div 8) = (uint sz + 15) div 8"
      by (simp add: uint_div a)
    have "8 * ((uint sz + 15) div 8) \<le> uint sz + 15" by arith
    with assms(2) have c: "8 * ((uint sz + 15) div 8) < 4294967296" by arith
    have c0: "0 \<le> 8 * ((uint sz + 15) div 8)" using pos by arith
    have "uint (8 * ((15 + sz) div 8)) = (8 * ((uint sz + 15) div 8)) mod 4294967296"
      by (simp add: uint_word_ariths take_bit_eq_mod b)
    also have "\<dots> = 8 * ((uint sz + 15) div 8)"
      by (rule mod_pos_pos_trivial [OF c0 c])
    finally have "uint (8 * ((15 + sz) div 8)) = 8 * ((uint sz + 15) div 8)" .
    with False show ?thesis by (simp add: adjusted_size_def uint_ucast_up)
  qed
  show "uint (adjusted_size sz) = 8 * ((uint sz + 15) div 8)" by (rule eq)
  show "8 dvd uint (adjusted_size sz)" by (simp add: eq)
  show "uint sz + 8 \<le> uint (adjusted_size sz)" unfolding eq by arith
  show "uint (adjusted_size sz) < uint sz + 16" unfolding eq by arith
  show "16 \<le> uint (adjusted_size sz)" unfolding eq using pos by arith
qed

text \<open>
  C5. The sum \<open>size + 8 + 7\<close> is computed in 32 bits and wraps: a request of
  4294967295 bytes gets the adjusted size 8, below the 16-byte minimum and far below
  the request.
\<close>

theorem adjusted_size_wraps: "adjusted_size 4294967295 = 8"
  by (simp add: adjusted_size_def)

subsection \<open>Reallocation\<close>

lemma GET_memcpy_in:
  "dst \<le> p \<Longrightarrow> p + 4 \<le> dst + int n \<Longrightarrow> GET (memcpy m dst src n) p = GET m (src + (p - dst))"
  by (simp add: GET_def memcpy_def algebra_simps)

lemma GET_memcpy_out:
  "p + 4 \<le> dst \<or> dst + int n \<le> p \<Longrightarrow> GET (memcpy m dst src n) p = GET m p"
  by (auto simp add: GET_def memcpy_def)

lemmas heaps_re = heap_re3_def heap_re2_def heap_re1_def

lemma malloc_heap_re1: "mm_malloc 4294967295 heap2 = Some (Some 4128, heap_re1)"
  by (simp add: heaps_re ops heaps codec reads)

lemma copy_size_heap_re1: "GET_SIZE (mem heap_re1) (HDRP 4112) = 16"
  by (simp add: heaps_re heaps codec reads)

lemma free_heap_re2: "mm_free 4112 heap_re2 = heap_re3"
  by (simp add: heaps_re ops heaps codec reads GET_memcpy_in GET_memcpy_out)

text \<open>
  C9. After \<open>mm_init\<close> and \<open>malloc(8)\<close>, which returns 4112 (a block of 16 bytes),
  \<open>realloc(4112, 4294967295)\<close> cannot get a block for that size: the one free block,
  4128, has 4080 bytes and \<open>mem_sbrk\<close> refuses to grow the 20 MB region by it. \<open>mm_realloc\<close> does not end the
  process: it returns 4128. The inner \<open>mm_malloc\<close> rounds the size to 8 and carves a
  block of 8 bytes in all at 4128 (\<open>heap_re1\<close>); the copy of min(4294967295, 16) = 16
  bytes from 4112 runs over it and zeroes the header of the free block behind, which
  held 4072. After \<open>mm_free(4112)\<close> (\<open>heap_re3\<close>) the walk from \<open>heap_listp\<close> is
  prologue, 4112, 4128 and stops at 4136 on a zero header, 4072 bytes before the
  epilogue at \<open>mem_brk\<close>. Every access is inside the heap.
\<close>

theorem mm_realloc_overruns_new_block:
  "chain (mem heap2) (heap_listp heap2) [4104, 4112, 4128] (mem_brk heap2)
   \<and> GET (mem heap2) (HDRP 4112) = 17
   \<and> GET (mem heap2) (HDRP 4128) = 4080
   \<and> fst (mem_sbrk 4294967295 heap2) = None
   \<and> mm_realloc 4112 4294967295 heap2 = Some (Returned 4128 heap_re3)
   \<and> GET (mem heap_re3) (HDRP 4128) = 9
   \<and> GET (mem heap_re1) (HDRP 4136) = 4072
   \<and> GET (mem heap_re3) (HDRP 4136) = 0
   \<and> chain (mem heap_re3) (heap_listp heap_re3) [4104, 4112, 4128] 4136
   \<and> mem_brk heap_re3 = 8208"
proof -
  have r: "mm_realloc 4112 4294967295 heap2 = Some (Returned 4128 heap_re3)"
    by (simp add: mm_realloc_def malloc_heap_re1 copy_size_heap_re1
        free_heap_re2 [unfolded heap_re2_def])
  have g: "chain (mem heap2) (heap_listp heap2) [4104, 4112, 4128] (mem_brk heap2)"
    "GET (mem heap2) (HDRP 4112) = 17" "GET (mem heap2) (HDRP 4128) = 4080"
    "fst (mem_sbrk 4294967295 heap2) = None"
    by (simp_all add: mem_sbrk_def heaps codec reads)
  have h: "GET (mem heap_re3) (HDRP 4128) = 9" "GET (mem heap_re1) (HDRP 4136) = 4072"
    "GET (mem heap_re3) (HDRP 4136) = 0"
    "chain (mem heap_re3) (heap_listp heap_re3) [4104, 4112, 4128] 4136"
    "mem_brk heap_re3 = 8208"
    by (simp_all add: heaps_re heaps codec reads GET_memcpy_in GET_memcpy_out)
  show ?thesis by (intro conjI g r h)
qed

text \<open>
  C10. \<open>mm_realloc\<close> with size 0 ends the process with \<open>exit(1)\<close>, whatever the block
  and the heap: \<open>mm_malloc\<close> returns null before it looks at the heap, so nothing is
  freed and nothing is returned.
\<close>

theorem mm_realloc_zero_exits: "mm_realloc ptr 0 s = Some (Exit 1)"
  by (simp add: mm_realloc_def mm_malloc_def)

section \<open>The heap invariant\<close>

text \<open>
  Every operation keeps the heap a list of well-tagged blocks between prologue and
  epilogue with no two free neighbours, as long as the requested sizes are in range
  (at most 2147483632 bytes) and the region is smaller than 4 GB. Each operation has
  its lemma, \<open>coalesce_inv\<close>, \<open>mm_free_inv\<close>, \<open>place_inv\<close>, \<open>extend_heap_inv\<close>,
  \<open>mm_malloc_inv\<close> and \<open>mm_init_inv\<close>; the last subsection lifts them to sessions.
  In range \<open>mm_malloc\<close> also always returns: its search terminates. The lemmas also
  say where the operations store: never in an allocated block other than the one freed,
  never below the prologue and never above the epilogue header, so that in range no
  store leaves the heap.
\<close>

subsection \<open>Lists of blocks in memory\<close>

lemma total_size_append [simp]: "total_size (L1 @ L2) = total_size L1 + total_size L2"
  by (induction L1) auto

lemma total_size_nonneg: "0 \<le> total_size L"
  by (induction L) auto

lemma layout_append:
  "layout m p (L1 @ L2) \<longleftrightarrow> layout m p L1 \<and> layout m (p + total_size L1) L2"
  by (induction L1 arbitrary: p) (auto simp add: add.assoc)

lemma starts_append:
  "starts p (L1 @ L2) = starts p L1 @ starts (p + total_size L1) L2"
  by (induction L1 arbitrary: p) (auto simp add: add.assoc)

lemma layout_size_ge8: "layout m p ((sz, a) # L) \<Longrightarrow> 8 \<le> uint sz"
  using dvd8_cases [of sz] by (auto simp add: uint_0_iff)

text \<open>Writes outside the tags of a run of blocks leave its layout alone.\<close>

lemma layout_PUT:
  "layout m p L \<Longrightarrow> a + 4 \<le> p - 4 \<or> p + total_size L - 4 \<le> a \<Longrightarrow> layout (PUT m a v) p L"
proof (induction L arbitrary: p)
  case Nil
  then show ?case by simp
next
  case (Cons b L)
  obtain sz al where b: "b = (sz, al)" by (cases b)
  have ge: "8 \<le> uint sz" using Cons.prems(1) unfolding b by (rule layout_size_ge8)
  have t: "0 \<le> total_size L" by (rule total_size_nonneg)
  have rest: "layout (PUT m a v) (p + uint sz) L"
  proof (rule Cons.IH)
    show "layout m (p + uint sz) L" using Cons.prems(1) by (simp add: b)
    show "a + 4 \<le> p + uint sz - 4 \<or> p + uint sz + total_size L - 4 \<le> a"
      using Cons.prems(2) ge by (auto simp add: b)
  qed
  have h: "GET (PUT m a v) (p - 4) = GET m (p - 4)"
    using Cons.prems(2) ge t by (intro GET_PUT_other) (auto simp add: b)
  have f: "GET (PUT m a v) (p + uint sz - 8) = GET m (p + uint sz - 8)"
    using Cons.prems(2) ge t by (intro GET_PUT_other) (auto simp add: b)
  show ?case using Cons.prems(1) rest by (simp add: b h f)
qed

lemma layout_hd_reads:
  assumes "layout m p ((sz, a) # L)"
  shows "GET_SIZE m (p - 4) = sz" "GET_ALLOC m (p - 4) = a"
    "GET_SIZE m (p + uint sz - 8) = sz" "GET_ALLOC m (p + uint sz - 8) = a"
proof -
  from assms have d: "8 dvd uint sz" and a: "a = 0 \<or> a = 1"
    and h: "GET m (p - 4) = PACK sz a" and f: "GET m (p + uint sz - 8) = PACK sz a"
    by simp_all
  show "GET_SIZE m (p - 4) = sz" using h d by (rule GET_SIZE_eq)
  show "GET_ALLOC m (p - 4) = a" using h d a by (rule GET_ALLOC_eq)
  show "GET_SIZE m (p + uint sz - 8) = sz" using f d by (rule GET_SIZE_eq)
  show "GET_ALLOC m (p + uint sz - 8) = a" using f d a by (rule GET_ALLOC_eq)
qed

lemma layout_chain: "layout m p L \<Longrightarrow> chain m p (starts p L) (p + total_size L)"
proof (induction L arbitrary: p)
  case Nil
  then show ?case by simp
next
  case (Cons b L)
  obtain sz al where b: "b = (sz, al)" by (cases b)
  from Cons.prems have nz: "sz \<noteq> 0" and rest: "layout m (p + uint sz) L"
    unfolding b by simp_all
  have s: "GET_SIZE m (p - 4) = sz" using Cons.prems unfolding b by (rule layout_hd_reads)
  from Cons.IH [OF rest] show ?case
    by (simp add: b HDRP_def NEXT_BLKP_def WSIZE_def s nz add.assoc)
qed

lemma layout_total_dvd8: "layout m p L \<Longrightarrow> 8 dvd total_size L"
  by (induction L arbitrary: p) auto

lemma layout_total_ge8: "layout m p L \<Longrightarrow> L \<noteq> [] \<Longrightarrow> 8 \<le> total_size L"
proof (cases L)
  case Nil
  assume "L \<noteq> []"
  with Nil show ?thesis by simp
next
  case (Cons b L')
  assume "layout m p L"
  obtain sz a where b: "b = (sz, a)" by (cases b)
  from \<open>layout m p L\<close> have "8 \<le> uint sz" unfolding Cons b by (rule layout_size_ge8)
  moreover have "0 \<le> total_size L'" by (rule total_size_nonneg)
  ultimately show ?thesis by (simp add: Cons b)
qed

text \<open>
  Rewriting the header at the start and the footer at the end of a run of blocks turns
  the run into one block.
\<close>

lemma layout_replace:
  assumes lay: "layout m p (A @ R @ B)"
      and ne: "R \<noteq> []"
      and w: "uint w = total_size R"
      and a: "a = 0 \<or> a = 1"
      and q: "q = p + total_size A"
  shows "layout (PUT (PUT m (q - 4) (PACK w a)) (q + total_size R - 8) (PACK w a)) p (A @ (w, a) # B)"
proof -
  let ?m1 = "PUT m (q - 4) (PACK w a)"
  let ?m2 = "PUT ?m1 (q + total_size R - 8) (PACK w a)"
  from lay have lA: "layout m p A" and lR: "layout m q R" and lB: "layout m (q + total_size R) B"
    by (simp_all add: layout_append q add.assoc)
  have r8: "8 \<le> total_size R" using lR ne by (rule layout_total_ge8)
  have d8: "8 dvd uint w" using lR by (simp add: w layout_total_dvd8)
  have nz: "w \<noteq> 0" using r8 w by (auto simp add: uint_0_iff)
  have tB: "0 \<le> total_size B" by (rule total_size_nonneg)
  have "layout ?m1 p A" using lA by (rule layout_PUT) (simp add: q)
  then have A': "layout ?m2 p A" by (rule layout_PUT) (use r8 in \<open>simp add: q\<close>)
  have "layout ?m1 (q + total_size R) B" using lB by (rule layout_PUT) (use r8 in simp)
  then have B': "layout ?m2 (q + total_size R) B" by (rule layout_PUT) simp
  have "GET ?m2 (q - 4) = GET ?m1 (q - 4)" by (rule GET_PUT_other) (use r8 in simp)
  then have h: "GET ?m2 (q - 4) = PACK w a" by (simp add: GET_PUT_same)
  have f: "GET ?m2 (q + total_size R - 8) = PACK w a" by (simp add: GET_PUT_same)
  show ?thesis
    using A' B' h f nz d8 a by (simp add: layout_append q w add.assoc)
qed

text \<open>Splitting one block in two.\<close>

lemma layout_split:
  assumes lay: "layout m p (A @ (c, a0) # B)"
      and x: "x \<noteq> 0" "8 dvd uint x" and y: "y \<noteq> 0" "8 dvd uint y"
      and sum: "uint x + uint y = uint c"
      and a: "a1 = 0 \<or> a1 = 1" "a2 = 0 \<or> a2 = 1"
      and q: "q = p + total_size A"
  shows "layout (PUT (PUT (PUT (PUT m (q - 4) (PACK x a1)) (q + uint x - 8) (PACK x a1))
                   (q + uint x - 4) (PACK y a2)) (q + uint c - 8) (PACK y a2))
           p (A @ (x, a1) # (y, a2) # B)"
proof -
  let ?m1 = "PUT m (q - 4) (PACK x a1)"
  let ?m2 = "PUT ?m1 (q + uint x - 8) (PACK x a1)"
  let ?m3 = "PUT ?m2 (q + uint x - 4) (PACK y a2)"
  let ?m4 = "PUT ?m3 (q + uint c - 8) (PACK y a2)"
  from lay have lA: "layout m p A" and lB: "layout m (q + uint c) B"
    by (simp_all add: layout_append q add.assoc)
  have x8: "8 \<le> uint x" using dvd8_cases [OF x(2)] x(1) by (auto simp add: uint_0_iff)
  have y8: "8 \<le> uint y" using dvd8_cases [OF y(2)] y(1) by (auto simp add: uint_0_iff)
  have c16: "16 \<le> uint c" using x8 y8 sum by linarith
  have "layout ?m1 p A" using lA by (rule layout_PUT) (simp add: q)
  then have "layout ?m2 p A" by (rule layout_PUT) (use x8 in \<open>simp add: q\<close>)
  then have "layout ?m3 p A" by (rule layout_PUT) (use x8 in \<open>simp add: q\<close>)
  then have A': "layout ?m4 p A" by (rule layout_PUT) (use c16 in \<open>simp add: q\<close>)
  have "layout ?m1 (q + uint c) B" using lB by (rule layout_PUT) (use c16 in simp)
  then have "layout ?m2 (q + uint c) B" by (rule layout_PUT) (use y8 sum in simp)
  then have "layout ?m3 (q + uint c) B" by (rule layout_PUT) (use y8 sum in simp)
  then have B': "layout ?m4 (q + uint c) B" by (rule layout_PUT) simp
  have "GET ?m4 (q - 4) = GET ?m3 (q - 4)" by (rule GET_PUT_other) (use c16 in simp)
  also have "\<dots> = GET ?m2 (q - 4)" by (rule GET_PUT_other) (use x8 in simp)
  also have "\<dots> = GET ?m1 (q - 4)" by (rule GET_PUT_other) (use x8 in simp)
  finally have h1: "GET ?m4 (q - 4) = PACK x a1" by (simp add: GET_PUT_same)
  have "GET ?m4 (q + uint x - 8) = GET ?m3 (q + uint x - 8)"
    by (rule GET_PUT_other) (use y8 sum in simp)
  also have "\<dots> = GET ?m2 (q + uint x - 8)" by (rule GET_PUT_other) simp
  finally have f1: "GET ?m4 (q + uint x - 8) = PACK x a1" by (simp add: GET_PUT_same)
  have "GET ?m4 (q + uint x - 4) = GET ?m3 (q + uint x - 4)"
    by (rule GET_PUT_other) (use y8 sum in simp)
  then have h2: "GET ?m4 (q + uint x - 4) = PACK y a2" by (simp add: GET_PUT_same)
  have f2: "GET ?m4 (q + uint c - 8) = PACK y a2" by (simp add: GET_PUT_same)
  have e: "q + uint x + uint y = q + uint c" using sum by simp
  show ?thesis
    using A' B' h1 f1 h2 f2 x y a
    by (simp add: layout_append q add.assoc sum e [unfolded q add.assoc])
qed

subsection \<open>What coalesce reads\<close>

text \<open>What \<open>coalesce\<close> reads around a block, given the layout.\<close>

lemma zipper_reads:
  assumes lay: "layout m hl (A @ (ps, pa) # (c, ca) # B)"
      and bp: "bp = hl + total_size A + uint ps"
  shows "GET_SIZE m (bp - 8) = ps" "GET_ALLOC m (bp - 8) = pa"
    "GET_SIZE m (bp - uint ps - 4) = ps"
    "GET_SIZE m (bp - 4) = c" "GET_ALLOC m (bp - 4) = ca"
    "8 \<le> uint ps" "8 \<le> uint c"
    "layout m (bp + uint c) B"
proof -
  from lay have lp: "layout m (hl + total_size A) ((ps, pa) # (c, ca) # B)"
    by (simp add: layout_append)
  then have lc: "layout m bp ((c, ca) # B)" by (simp add: bp)
  from layout_hd_reads [OF lp]
  show "GET_SIZE m (bp - 8) = ps" "GET_ALLOC m (bp - 8) = pa" "GET_SIZE m (bp - uint ps - 4) = ps"
    by (simp_all add: bp)
  from layout_hd_reads [OF lc] show "GET_SIZE m (bp - 4) = c" "GET_ALLOC m (bp - 4) = ca"
    by simp_all
  show "8 \<le> uint ps" using lp by (rule layout_size_ge8)
  show "8 \<le> uint c" using lc by (rule layout_size_ge8)
  show "layout m (bp + uint c) B" using lc by simp
qed

lemma next_reads_block:
  assumes "layout m n ((ns, na) # Bb)"
  shows "GET_SIZE m (n - 4) = ns" "GET_ALLOC m (n - 4) = na" "GET_SIZE m (n + uint ns - 8) = ns"
  using layout_hd_reads [OF assms] by simp_all

lemma next_reads_epilogue:
  assumes "GET m (n - 4) = PACK 0 1"
  shows "GET_SIZE m (n - 4) = 0" "GET_ALLOC m (n - 4) = 1"
proof -
  show "GET_SIZE m (n - 4) = 0" using assms by (rule GET_SIZE_eq) simp
  show "GET_ALLOC m (n - 4) = 1" using assms by (rule GET_ALLOC_eq) simp_all
qed

text \<open>
  \<open>coalesce\<close> in terms of the sizes and flags around the block: a restatement of
  \<open>coalesce_local\<close> with the reads named.
\<close>

lemma coalesce_reads:
  assumes c: "GET_SIZE (mem s) (bp - 4) = c" and c8: "8 \<le> uint c"
      and ps: "GET_SIZE (mem s) (bp - 8) = ps" and p8: "8 \<le> uint ps"
      and ph: "GET_SIZE (mem s) (bp - uint ps - 4) = ps"
      and pa: "GET_ALLOC (mem s) (bp - 8) = pa"
      and ns: "GET_SIZE (mem s) (bp + uint c - 4) = ns"
      and na: "GET_ALLOC (mem s) (bp + uint c - 4) = na"
      and nf: "na = 0 \<Longrightarrow> GET_SIZE (mem s) (bp + uint c + uint ns - 8) = ns"
      and bnd: "uint ps + uint c + uint ns < 4294967296"
  shows "coalesce bp s =
     (if pa \<noteq> 0 \<and> na \<noteq> 0 then (bp, s)
      else if pa \<noteq> 0 then
        (bp, s\<lparr>mem := PUT (PUT (mem s) (bp - 4) (PACK (c + ns) 0)) (bp + uint c + uint ns - 8) (PACK (c + ns) 0),
                next_fit := (if bp \<le> next_fit s \<and> next_fit s < bp + uint (c + ns) then bp else next_fit s)\<rparr>)
      else if na \<noteq> 0 then
        (bp - uint ps,
         s\<lparr>mem := PUT (PUT (mem s) (bp + uint c - 8) (PACK (c + ps) 0)) (bp - uint ps - 4) (PACK (c + ps) 0),
           next_fit := (if bp - uint ps \<le> next_fit s \<and> next_fit s < bp - uint ps + uint (c + ps)
                        then bp - uint ps else next_fit s)\<rparr>)
      else
        (bp - uint ps,
         s\<lparr>mem := PUT (PUT (mem s) (bp - uint ps - 4) (PACK (c + (ps + ns)) 0))
                   (bp + uint c + uint ns - 8) (PACK (c + (ps + ns)) 0),
           next_fit := (if bp - uint ps \<le> next_fit s \<and> next_fit s < bp - uint ps + uint (c + (ps + ns))
                        then bp - uint ps else next_fit s)\<rparr>))"
proof -
  note hd = HDRP_def WSIZE_def DSIZE_def
  have nx: "NEXT_BLKP (mem s) bp = bp + uint c" by (simp add: NEXT_BLKP_def hd c)
  have pv: "PREV_BLKP (mem s) bp = bp - uint ps" by (simp add: PREV_BLKP_def hd ps)
  have fb: "FTRP (mem s) bp = bp + uint c - 8" by (simp add: FTRP_def hd c)
  have fn: "FTRP (mem s) (bp + uint c) = bp + uint c + uint ns - 8" by (simp add: FTRP_def hd ns)
  have h1: "GET_SIZE (mem s) (HDRP bp) \<noteq> 0" using c c8 by (auto simp add: hd)
  have h2: "GET_SIZE (mem s) (bp - DSIZE) \<noteq> 0" using ps p8 by (auto simp add: hd)
  have h3: "GET_SIZE (mem s) (HDRP (PREV_BLKP (mem s) bp)) = GET_SIZE (mem s) (bp - DSIZE)"
    by (simp add: pv hd ph ps)
  have h4: "GET_SIZE (mem s) (FTRP (mem s) (NEXT_BLKP (mem s) bp)) = GET_SIZE (mem s) (HDRP (NEXT_BLKP (mem s) bp))"
    if "GET_ALLOC (mem s) (HDRP (NEXT_BLKP (mem s) bp)) = 0"
    using that nf by (simp add: nx hd fn ns na)
  have h5: "uint (GET_SIZE (mem s) (bp - DSIZE)) + uint (GET_SIZE (mem s) (HDRP bp))
            + uint (GET_SIZE (mem s) (HDRP (NEXT_BLKP (mem s) bp))) < 2 ^ 32"
    using bnd by (simp add: nx hd c ps ns)
  from coalesce_local [OF h1 h2 h3 h4 h5]
  show ?thesis
    by (simp add: Let_def nx pv fb fn hd c ps ns pa na)
qed

subsection \<open>Allocated blocks and free neighbours\<close>

lemma allocated_append:
  "allocated p (L1 @ L2) = allocated p L1 \<union> allocated (p + total_size L1) L2"
  by (induction L1 arbitrary: p) (auto simp add: add.assoc)

lemma allocated_split:
  "x \<in> allocated p L \<Longrightarrow> \<exists>A c B. L = A @ (c, 1) # B \<and> x = p + total_size A"
proof (induction L arbitrary: p)
  case Nil
  then show ?case by simp
next
  case (Cons b L)
  obtain sz a where b: "b = (sz, a)" by (cases b)
  show ?case
  proof (cases "a = 1 \<and> x = p")
    case True
    then have "b # L = [] @ (sz, 1) # L \<and> x = p + total_size []" by (simp add: b)
    then show ?thesis by blast
  next
    case False
    with Cons.prems have "x \<in> allocated (p + uint sz) L" by (auto simp add: b split: if_splits)
    from Cons.IH [OF this] obtain A c B where "L = A @ (c, 1) # B" "x = p + uint sz + total_size A"
      by blast
    then have "b # L = (b # A) @ (c, 1) # B \<and> x = p + total_size (b # A)" by (simp add: b)
    then show ?thesis by blast
  qed
qed

lemma allocated_range:
  "layout m p L \<Longrightarrow> x \<in> allocated p L \<Longrightarrow> p \<le> x \<and> x < p + total_size L"
proof (induction L arbitrary: p)
  case Nil
  then show ?case by simp
next
  case (Cons b L)
  obtain sz a where b: "b = (sz, a)" by (cases b)
  have ge: "8 \<le> uint sz" using Cons.prems(1) unfolding b by (rule layout_size_ge8)
  have t: "0 \<le> total_size L" by (rule total_size_nonneg)
  show ?case
  proof (cases "x = p")
    case True
    with ge t show ?thesis by (simp add: b)
  next
    case False
    with Cons.prems have "x \<in> allocated (p + uint sz) L" and "layout m (p + uint sz) L"
      by (auto simp add: b split: if_splits)
    from Cons.IH [OF this(2) this(1)] ge show ?thesis by (simp add: b)
  qed
qed

lemma naf_Cons: "naf (x # L) \<longleftrightarrow> naf L \<and> (L = [] \<or> \<not> (snd x = 0 \<and> snd (hd L) = 0))"
  by (cases x; cases L) auto

lemma naf_append:
  "naf (L1 @ L2) \<longleftrightarrow>
     naf L1 \<and> naf L2 \<and> (L1 = [] \<or> L2 = [] \<or> \<not> (snd (last L1) = 0 \<and> snd (hd L2) = 0))"
proof (induction L1)
  case Nil
  then show ?case by simp
next
  case (Cons x L1)
  show ?case
    by (cases "L1 = []") (auto simp add: naf_Cons Cons.IH)
qed

lemma PUT_twist:
  "a + 4 \<le> b \<or> b + 4 \<le> a \<Longrightarrow> PUT (PUT m a v) b w = PUT (PUT m b w) a v"
  unfolding PUT_def by (rule ext) auto

lemma GET_PUT2_other:
  "q + 4 \<le> a \<or> a + 4 \<le> q \<Longrightarrow> q + 4 \<le> b \<or> b + 4 \<le> q \<Longrightarrow>
   GET (PUT (PUT m a v) b w) q = GET m q"
  by (simp add: GET_PUT_other)

subsection \<open>The bytes of the allocated blocks\<close>

lemma owned_append: "owned p (L1 @ L2) = owned p L1 \<union> owned (p + total_size L1) L2"
  by (induction L1 arbitrary: p) (auto simp add: add.assoc)

lemma owned_range: "x \<in> owned p L \<Longrightarrow> p - 4 \<le> x \<and> x < p + total_size L - 4"
proof (induction L arbitrary: p)
  case Nil
  then show ?case by simp
next
  case (Cons b L)
  obtain sz a where b: "b = (sz, a)" by (cases b)
  have t: "0 \<le> total_size L" by (rule total_size_nonneg)
  have u: "0 \<le> uint sz" by simp
  from Cons.prems have "x \<in> {p - 4 ..< p + uint sz - 4} \<or> x \<in> owned (p + uint sz) L"
    by (auto simp add: b split: if_splits)
  then show ?case
  proof
    assume "x \<in> {p - 4 ..< p + uint sz - 4}"
    then show ?thesis using t by (simp add: b)
  next
    assume "x \<in> owned (p + uint sz) L"
    from Cons.IH [OF this]
    have "p + uint sz - 4 \<le> x" "x < p + uint sz + total_size L - 4" by simp_all
    moreover have "total_size (b # L) = uint sz + total_size L" by (simp add: b)
    moreover have "0 \<le> uint sz" by simp
    ultimately show ?thesis by linarith
  qed
qed

lemma PUT_other_byte: "a < p \<or> p + 4 \<le> a \<Longrightarrow> PUT m p v a = m a"
  by (auto simp add: PUT_def)

lemma GET_agree:
  "m' p = m p \<Longrightarrow> m' (p + 1) = m (p + 1) \<Longrightarrow> m' (p + 2) = m (p + 2) \<Longrightarrow> m' (p + 3) = m (p + 3)
   \<Longrightarrow> GET m' p = GET m p"
  by (simp add: GET_def)

lemma GET_agree_range: "(\<forall>a. p \<le> a \<and> a < p + 4 \<longrightarrow> m' a = m a) \<Longrightarrow> GET m' p = GET m p"
  by (rule GET_agree) simp_all

text \<open>The layout of a run of blocks depends on the bytes of the run only.\<close>

lemma layout_agree:
  "layout m p L \<Longrightarrow> (\<forall>a. p - 4 \<le> a \<and> a < p + total_size L - 4 \<longrightarrow> m' a = m a) \<Longrightarrow> layout m' p L"
proof (induction L arbitrary: p)
  case Nil
  then show ?case by simp
next
  case (Cons b L)
  obtain sz a where b: "b = (sz, a)" by (cases b)
  have t: "0 \<le> total_size L" by (rule total_size_nonneg)
  from Cons.prems(1) have s8: "8 \<le> uint sz" unfolding b by (rule layout_size_ge8)
  have h: "GET m' (p - 4) = GET m (p - 4)"
    using Cons.prems(2) s8 t by (intro GET_agree_range) (simp add: b)
  have f: "GET m' (p + uint sz - 8) = GET m (p + uint sz - 8)"
    using Cons.prems(2) s8 t by (intro GET_agree_range) (simp add: b)
  have "layout m' (p + uint sz) L"
    using Cons.prems s8 by (intro Cons.IH) (simp_all add: b)
  with Cons.prems(1) h f show ?case by (simp add: b)
qed

text \<open>The bytes of the allocated blocks, read from the headers.\<close>

lemma owned_reads:
  "layout m p L \<Longrightarrow>
   owned p L = (\<Union>b \<in> allocated p L. {b - 4 ..< b + uint (GET_SIZE m (b - 4)) - 4})"
proof (induction L arbitrary: p)
  case Nil
  then show ?case by simp
next
  case (Cons b L)
  obtain sz a where b: "b = (sz, a)" by (cases b)
  from Cons.prems have "GET_SIZE m (p - 4) = sz" unfolding b by (rule layout_hd_reads)
  moreover from Cons.prems have "layout m (p + uint sz) L" by (simp add: b)
  ultimately show ?case using Cons.IH [of "p + uint sz"] by (simp add: b)
qed

lemma allocated_in_owned:
  assumes "layout m p L" and "b \<in> allocated p L"
  shows "{b - 4 ..< b + uint (GET_SIZE m (b - 4)) - 4} \<subseteq> owned p L"
    and "8 \<le> uint (GET_SIZE m (b - 4))"
proof -
  show "{b - 4 ..< b + uint (GET_SIZE m (b - 4)) - 4} \<subseteq> owned p L"
    unfolding owned_reads [OF assms(1)] using assms(2) by blast
  from allocated_split [OF assms(2)] obtain A c B where L: "L = A @ (c, 1) # B"
    and b: "b = p + total_size A" by blast
  from assms(1) have l: "layout m b ((c, 1) # B)" by (simp add: L layout_append b)
  from layout_hd_reads [OF l] layout_size_ge8 [OF l]
  show "8 \<le> uint (GET_SIZE m (b - 4))" by simp
qed

text \<open>
  Two heaps with the same allocated blocks, where the second memory keeps the bytes of
  the allocated blocks of the first, give these blocks the same extent.
\<close>

lemma owned_eq:
  assumes l: "layout m p K" and l': "layout m' p K'"
      and al: "allocated p K' = allocated p K"
      and fr: "\<forall>a \<in> owned p K. m' a = m a"
  shows "owned p K' = owned p K"
proof -
  have "GET_SIZE m' (b - 4) = GET_SIZE m (b - 4)" if "b \<in> allocated p K" for b
  proof -
    note i = allocated_in_owned [OF l that]
    have "GET m' (b - 4) = GET m (b - 4)"
    proof (rule GET_agree_range, intro allI impI)
      fix a assume "b - 4 \<le> a \<and> a < b - 4 + 4"
      with i have "a \<in> owned p K" by auto
      with fr show "m' a = m a" by blast
    qed
    then show ?thesis by (simp add: GET_SIZE_def)
  qed
  then show ?thesis unfolding owned_reads [OF l] owned_reads [OF l'] al by simp
qed

text \<open>\<open>coalesce\<close> stores only in the tags of the block and of its free neighbours.\<close>

lemma coalesce_writes:
  assumes c: "GET_SIZE (mem s) (bp - 4) = c" and c8: "8 \<le> uint c"
      and ps: "GET_SIZE (mem s) (bp - 8) = ps" and p8: "8 \<le> uint ps"
      and ph: "GET_SIZE (mem s) (bp - uint ps - 4) = ps"
      and pa: "GET_ALLOC (mem s) (bp - 8) = pa"
      and ns: "GET_SIZE (mem s) (bp + uint c - 4) = ns"
      and na: "GET_ALLOC (mem s) (bp + uint c - 4) = na"
      and nf: "na = 0 \<Longrightarrow> GET_SIZE (mem s) (bp + uint c + uint ns - 8) = ns"
      and bnd: "uint ps + uint c + uint ns < 4294967296"
      and a1: "a < bp - 4 \<or> bp \<le> a"
      and a2: "a < bp + uint c - 8 \<or> bp + uint c - 4 \<le> a"
      and a3: "pa = 0 \<Longrightarrow> a < bp - uint ps - 4 \<or> bp - uint ps \<le> a"
      and a4: "na = 0 \<Longrightarrow> a < bp + uint c + uint ns - 8 \<or> bp + uint c + uint ns - 4 \<le> a"
  shows "mem (snd (coalesce bp s)) a = mem s a"
proof -
  note co = coalesce_reads [OF c c8 ps p8 ph pa ns na nf bnd]
  show ?thesis
  proof (cases "pa = 0")
    case p0: True
    show ?thesis
    proof (cases "na = 0")
      case True
      with p0 a3 a4 show ?thesis by (auto simp add: co PUT_other_byte)
    next
      case False
      with p0 a2 a3 show ?thesis by (auto simp add: co PUT_other_byte)
    qed
  next
    case p1: False
    show ?thesis
    proof (cases "na = 0")
      case True
      with p1 a1 a4 show ?thesis by (auto simp add: co PUT_other_byte)
    next
      case False
      with p1 show ?thesis by (simp add: co)
    qed
  qed
qed

lemma coalesce_frame:
  assumes K: "K = A @ (c, 0) # B"
      and A: "A \<noteq> []"
      and lay: "layout (mem s) hl K"
      and e: "e = hl + total_size K"
      and epi: "GET (mem s) (e - 4) = PACK 0 1"
      and bnd: "total_size K < 4294967296"
      and bp: "bp = hl + total_size A"
      and a: "a \<in> owned hl K \<or> a < hl - 4 \<or> e - 4 \<le> a"
  shows "mem (snd (coalesce bp s)) a = mem s a"
proof -
  from A obtain A0 pb where A0: "A = A0 @ [pb]" by (cases A rule: rev_cases) auto
  obtain ps pa where pb: "pb = (ps, pa)" by (cases pb)
  have K': "K = A0 @ (ps, pa) # (c, 0) # B" by (simp add: K A0 pb)
  have bp': "bp = hl + total_size A0 + uint ps" by (simp add: bp A0 pb)
  note z = zipper_reads [OF lay [unfolded K'] bp']
  have tB: "0 \<le> total_size B" and tA: "0 \<le> total_size A0" by (rule total_size_nonneg)+
  have tK: "total_size K = total_size A0 + uint ps + uint c + total_size B" by (simp add: K')
  have ow: "a \<in> owned hl K \<Longrightarrow>
            a \<in> owned hl A0 \<or> (pa = 1 \<and> bp - uint ps - 4 \<le> a \<and> a < bp - 4) \<or> a \<in> owned (bp + uint c) B"
    by (auto simp add: K' owned_append bp' add.assoc split: if_splits)
  have oA: "a \<in> owned hl A0 \<Longrightarrow> a < bp - uint ps - 4"
    using owned_range [of a hl A0] by (simp add: bp')
  have oB: "a \<in> owned (bp + uint c) B \<Longrightarrow> bp + uint c - 4 \<le> a"
    using owned_range [of a "bp + uint c" B] by simp
  obtain ns na where ns: "GET_SIZE (mem s) (bp + uint c - 4) = ns"
    and na: "GET_ALLOC (mem s) (bp + uint c - 4) = na"
    and nf: "na = 0 \<Longrightarrow> GET_SIZE (mem s) (bp + uint c + uint ns - 8) = ns"
    and nsB: "uint ns \<le> total_size B"
    and oN: "na = 0 \<Longrightarrow> a \<in> owned (bp + uint c) B \<Longrightarrow> bp + uint c + uint ns - 4 \<le> a"
  proof (cases B)
    case Nil
    then have "bp + uint c = e" by (simp add: e K bp)
    with epi next_reads_epilogue [of "mem s" e] that [of 0 1] Nil show ?thesis by simp
  next
    case (Cons b Bb)
    obtain ns na where b: "b = (ns, na)" by (cases b)
    from z(8) have l: "layout (mem s) (bp + uint c) ((ns, na) # Bb)" by (simp add: Cons b)
    note r = next_reads_block [OF l]
    have "0 \<le> total_size Bb" by (rule total_size_nonneg)
    then have 1: "uint ns \<le> total_size B" by (simp add: Cons b)
    have 2: "bp + uint c + uint ns - 4 \<le> a" if "na = 0" "a \<in> owned (bp + uint c) B"
      using that owned_range [of a "bp + uint c + uint ns" Bb] by (simp add: Cons b)
    from that [of ns na] r 1 2 show ?thesis by simp
  qed
  have b32: "uint ps + uint c + uint ns < 4294967296" using bnd tK tA nsB by linarith
  have u: "0 \<le> uint ns" "0 \<le> uint ps" by simp_all
  have pos: "a < bp - uint ps - 4 \<or> (pa = 1 \<and> bp - uint ps - 4 \<le> a \<and> a < bp - 4)
             \<or> (bp + uint c - 4 \<le> a \<and> (na = 0 \<longrightarrow> bp + uint c + uint ns - 4 \<le> a))"
    using a
  proof (elim disjE)
    assume "a \<in> owned hl K"
    from ow [OF this] show ?thesis using oA oB oN by blast
  next
    assume "a < hl - 4"
    moreover have "hl \<le> bp - uint ps" using tA by (simp add: bp')
    ultimately show ?thesis by simp
  next
    assume "e - 4 \<le> a"
    moreover have "e = bp + uint c + total_size B" by (simp add: e tK bp')
    ultimately have "bp + uint c + total_size B - 4 \<le> a" by simp
    with nsB tB have "bp + uint c - 4 \<le> a \<and> bp + uint c + uint ns - 4 \<le> a" by linarith
    then show ?thesis by simp
  qed
  have a1: "a < bp - 4 \<or> bp \<le> a" using pos z(6) z(7) by auto
  have a2: "a < bp + uint c - 8 \<or> bp + uint c - 4 \<le> a" using pos z(6) z(7) by auto
  have a3: "a < bp - uint ps - 4 \<or> bp - uint ps \<le> a" if "pa = 0"
    using that pos z(6) z(7) by auto
  have a4: "a < bp + uint c + uint ns - 8 \<or> bp + uint c + uint ns - 4 \<le> a" if "na = 0"
  proof -
    from pos that have "a < bp - 4 \<or> bp + uint c + uint ns - 4 \<le> a" using z(6) by auto
    moreover have "0 \<le> uint ns" by simp
    ultimately show ?thesis using z(7) by arith
  qed
  from z(4) z(7) z(1) z(6) z(3) z(2) ns na nf b32 a1 a2 a3 a4
  show ?thesis by (rule coalesce_writes)
qed

subsection \<open>The four cases of coalesce keep the invariant\<close>

lemma mergedI:
  assumes "layout (mem s') hl (A' @ (c', 0) # B')"
      and "r = hl + total_size A'"
      and "uint c \<le> uint c'"
      and "A' \<noteq> []"
      and "hd A' = hd K"
      and "total_size (A' @ (c', 0) # B') = total_size K"
      and "naf (A' @ (c', 0) # B')"
      and "next_fit s' \<in> set (starts hl (A' @ (c', 0) # B')) \<or> next_fit s' = e"
      and "allocated hl (A' @ (c', 0) # B') = allocated hl K"
      and "GET (mem s') (e - 4) = PACK 0 1"
      and "s' = s\<lparr>mem := mem s', next_fit := next_fit s'\<rparr>"
  shows "merged hl e K c s r s'"
  unfolding merged_def using assms by blast

lemma coalesce_inv_keep:
  assumes K: "K = A @ (ps, 1) # (c, 0) # B"
      and lay: "layout (mem s) hl K"
      and e: "e = hl + total_size K"
      and epi: "GET (mem s) (e - 4) = PACK 0 1"
      and bnd: "total_size K < 4294967296"
      and bp: "bp = hl + total_size A + uint ps"
      and nA: "naf (A @ [(ps, 1)])" and nB: "naf B"
      and nx: "B = [] \<or> snd (hd B) = 1"
      and cur: "next_fit s \<in> set (starts hl K) \<or> next_fit s = e"
  shows "merged hl e K c s (fst (coalesce bp s)) (snd (coalesce bp s))"
proof -
  note z = zipper_reads [OF lay [unfolded K] bp]
  have tB: "0 \<le> total_size B" and tA: "0 \<le> total_size A" by (rule total_size_nonneg)+
  obtain ns where ns: "GET_SIZE (mem s) (bp + uint c - 4) = ns"
    and na: "GET_ALLOC (mem s) (bp + uint c - 4) = 1" and nsB: "uint ns \<le> total_size B"
  proof (cases B)
    case Nil
    then have "bp + uint c = e" by (simp add: e K bp)
    with epi next_reads_epilogue [of "mem s" e] that [of 0] tB show ?thesis by simp
  next
    case (Cons b Bb)
    obtain ns' na' where b: "b = (ns', na')" by (cases b)
    with nx Cons have "na' = 1" by simp
    with next_reads_block [of "mem s" "bp + uint c" ns' na' Bb] z(8) that [of ns'] total_size_nonneg [of Bb]
    show ?thesis by (simp add: Cons b)
  qed
  have bb: "uint ps + uint c + uint ns < 4294967296"
    using bnd nsB tA by (simp add: K)
  have co: "coalesce bp s = (bp, s)"
    using coalesce_reads [OF z(4) z(7) z(1) z(6) z(3) z(2) ns na _ bb] by simp
  have n: "naf K"
    using nA nB nx by (auto simp add: K naf_append naf_Cons)
  show ?thesis
    unfolding co fst_conv snd_conv
  proof (rule mergedI [where A' = "A @ [(ps, 1)]" and c' = c and B' = B])
    show "layout (mem s) hl ((A @ [(ps, 1)]) @ (c, 0) # B)" using lay by (simp add: K)
    show "bp = hl + total_size (A @ [(ps, 1)])" by (simp add: bp)
    show "hd (A @ [(ps, 1)]) = hd K" by (cases A) (simp_all add: K)
    show "naf ((A @ [(ps, 1)]) @ (c, 0) # B)" using n by (simp add: K)
    show "next_fit s \<in> set (starts hl ((A @ [(ps, 1)]) @ (c, 0) # B)) \<or> next_fit s = e"
      using cur by (simp add: K)
  qed (simp_all add: K epi)
qed

lemma coalesce_inv_next:
  assumes K: "K = A @ (ps, 1) # (c, 0) # (ns, 0) # Bb"
      and lay: "layout (mem s) hl K"
      and e: "e = hl + total_size K"
      and epi: "GET (mem s) (e - 4) = PACK 0 1"
      and bnd: "total_size K < 4294967296"
      and bp: "bp = hl + total_size A + uint ps"
      and nA: "naf (A @ [(ps, 1)])" and nB: "naf ((ns, 0) # Bb)"
      and cur: "next_fit s \<in> set (starts hl K) \<or> next_fit s = e"
  shows "merged hl e K c s (fst (coalesce bp s)) (snd (coalesce bp s))"
proof -
  note z = zipper_reads [OF lay [unfolded K] bp]
  note nr = next_reads_block [OF z(8)]
  have tB: "0 \<le> total_size Bb" and tA: "0 \<le> total_size A" by (rule total_size_nonneg)+
  have n8: "8 \<le> uint ns" using z(8) by (rule layout_size_ge8)
  have bb: "uint ps + uint c + uint ns < 4294967296"
    using bnd tB tA by (simp add: K)
  have "uint c + uint ns < 4294967296" using bb z(6) by linarith
  then have u: "uint (c + ns) = uint c + uint ns" by (rule uint_add32)
  let ?v = "PACK (c + ns) 0"
  let ?m = "PUT (PUT (mem s) (bp - 4) ?v) (bp + uint c + uint ns - 8) ?v"
  let ?nf = "if bp \<le> next_fit s \<and> next_fit s < bp + uint (c + ns) then bp else next_fit s"
  have co: "coalesce bp s = (bp, s\<lparr>mem := ?m, next_fit := ?nf\<rparr>)"
    using coalesce_reads [OF z(4) z(7) z(1) z(6) z(3) z(2) nr(1) nr(2) nr(3) bb] by simp
  have l: "layout ?m hl ((A @ [(ps, 1)]) @ (c + ns, 0) # Bb)"
    using layout_replace [of "mem s" hl "A @ [(ps, 1)]" "[(c, 0), (ns, 0)]" Bb "c + ns" 0 bp] lay
    by (simp add: K u bp add.assoc)
  have ep: "GET ?m (e - 4) = PACK 0 1"
    using epi tB z(7) n8 by (simp add: GET_PUT2_other e K bp)
  show ?thesis
    unfolding co fst_conv snd_conv
  proof (rule mergedI [where A' = "A @ [(ps, 1)]" and c' = "c + ns" and B' = Bb])
    show "layout (mem (s\<lparr>mem := ?m, next_fit := ?nf\<rparr>)) hl ((A @ [(ps, 1)]) @ (c + ns, 0) # Bb)"
      using l by simp
    show "bp = hl + total_size (A @ [(ps, 1)])" by (simp add: bp)
    show "uint c \<le> uint (c + ns)" by (simp add: u)
    show "hd (A @ [(ps, 1)]) = hd K" by (cases A) (simp_all add: K)
    show "total_size ((A @ [(ps, 1)]) @ (c + ns, 0) # Bb) = total_size K" by (simp add: K u)
    show "naf ((A @ [(ps, 1)]) @ (c + ns, 0) # Bb)"
      using nA nB by (auto simp add: naf_append naf_Cons)
    show "next_fit (s\<lparr>mem := ?m, next_fit := ?nf\<rparr>) \<in> set (starts hl ((A @ [(ps, 1)]) @ (c + ns, 0) # Bb))
          \<or> next_fit (s\<lparr>mem := ?m, next_fit := ?nf\<rparr>) = e"
      using cur z(7) n8 by (auto simp add: K starts_append bp u add.assoc)
    show "allocated hl ((A @ [(ps, 1)]) @ (c + ns, 0) # Bb) = allocated hl K"
      by (simp add: K allocated_append u add.assoc)
    show "GET (mem (s\<lparr>mem := ?m, next_fit := ?nf\<rparr>)) (e - 4) = PACK 0 1" using ep by simp
  qed simp_all
qed

lemma coalesce_inv_prev:
  assumes K: "K = A @ (ps, 0) # (c, 0) # B"
      and A: "A \<noteq> []"
      and lay: "layout (mem s) hl K"
      and e: "e = hl + total_size K"
      and epi: "GET (mem s) (e - 4) = PACK 0 1"
      and bnd: "total_size K < 4294967296"
      and bp: "bp = hl + total_size A + uint ps"
      and nA: "naf (A @ [(ps, 0)])" and nB: "naf B"
      and nx: "B = [] \<or> snd (hd B) = 1"
      and cur: "next_fit s \<in> set (starts hl K) \<or> next_fit s = e"
  shows "merged hl e K c s (fst (coalesce bp s)) (snd (coalesce bp s))"
proof -
  note z = zipper_reads [OF lay [unfolded K] bp]
  have tB: "0 \<le> total_size B" and tA: "0 \<le> total_size A" by (rule total_size_nonneg)+
  obtain ns where ns: "GET_SIZE (mem s) (bp + uint c - 4) = ns"
    and na: "GET_ALLOC (mem s) (bp + uint c - 4) = 1" and nsB: "uint ns \<le> total_size B"
  proof (cases B)
    case Nil
    then have "bp + uint c = e" by (simp add: e K bp)
    with epi next_reads_epilogue [of "mem s" e] that [of 0] tB show ?thesis by simp
  next
    case (Cons b Bb)
    obtain ns' na' where b: "b = (ns', na')" by (cases b)
    with nx Cons have "na' = 1" by simp
    with next_reads_block [of "mem s" "bp + uint c" ns' na' Bb] z(8) that [of ns'] total_size_nonneg [of Bb]
    show ?thesis by (simp add: Cons b)
  qed
  have bb: "uint ps + uint c + uint ns < 4294967296"
    using bnd nsB tA by (simp add: K)
  have n0: "0 \<le> uint ns" by simp
  have "uint c + uint ps < 4294967296" using bb n0 by linarith
  then have "uint (c + ps) = uint c + uint ps" by (rule uint_add32)
  define w where "w = c + ps"
  have u: "uint w = uint ps + uint c" using \<open>uint (c + ps) = uint c + uint ps\<close> by (simp add: w_def)
  let ?v = "PACK w 0"
  let ?m = "PUT (PUT (mem s) (bp + uint c - 8) ?v) (bp - uint ps - 4) ?v"
  let ?nf = "if bp - uint ps \<le> next_fit s \<and> next_fit s < bp - uint ps + uint w
             then bp - uint ps else next_fit s"
  have co: "coalesce bp s = (bp - uint ps, s\<lparr>mem := ?m, next_fit := ?nf\<rparr>)"
    unfolding w_def
    using coalesce_reads [OF z(4) z(7) z(1) z(6) z(3) z(2) ns na _ bb] by simp
  have tw: "?m = PUT (PUT (mem s) (bp - uint ps - 4) ?v) (bp + uint c - 8) ?v"
    by (rule PUT_twist) (use z(6) z(7) in simp)
  have l: "layout ?m hl (A @ (w, 0) # B)"
    unfolding tw
    using layout_replace [of "mem s" hl A "[(ps, 0), (c, 0)]" B w 0 "bp - uint ps"] lay
    by (simp add: K u bp add.assoc)
  have ep: "GET ?m (e - 4) = PACK 0 1"
    using epi tB z(6) z(7) by (simp add: GET_PUT2_other e K bp)
  show ?thesis
    unfolding co fst_conv snd_conv
  proof (rule mergedI [where A' = A and c' = w and B' = B])
    show "layout (mem (s\<lparr>mem := ?m, next_fit := ?nf\<rparr>)) hl (A @ (w, 0) # B)"
      using l by simp
    show "bp - uint ps = hl + total_size A" by (simp add: bp)
    show "uint c \<le> uint w" by (simp add: u)
    show "hd A = hd K" using A by (cases A) (simp_all add: K)
    show "total_size (A @ (w, 0) # B) = total_size K" by (simp add: K u)
    show "naf (A @ (w, 0) # B)"
      using nA nB nx A by (auto simp add: naf_append naf_Cons)
    show "next_fit (s\<lparr>mem := ?m, next_fit := ?nf\<rparr>) \<in> set (starts hl (A @ (w, 0) # B))
          \<or> next_fit (s\<lparr>mem := ?m, next_fit := ?nf\<rparr>) = e"
      using cur z(6) z(7) by (auto simp add: K starts_append bp u add.assoc)
    show "allocated hl (A @ (w, 0) # B) = allocated hl K"
      by (simp add: K allocated_append u add.assoc)
    show "GET (mem (s\<lparr>mem := ?m, next_fit := ?nf\<rparr>)) (e - 4) = PACK 0 1" using ep by simp
  qed (simp_all add: A)
qed

lemma coalesce_inv_both:
  assumes K: "K = A @ (ps, 0) # (c, 0) # (ns, 0) # Bb"
      and A: "A \<noteq> []"
      and lay: "layout (mem s) hl K"
      and e: "e = hl + total_size K"
      and epi: "GET (mem s) (e - 4) = PACK 0 1"
      and bnd: "total_size K < 4294967296"
      and bp: "bp = hl + total_size A + uint ps"
      and nA: "naf (A @ [(ps, 0)])" and nB: "naf ((ns, 0) # Bb)"
      and cur: "next_fit s \<in> set (starts hl K) \<or> next_fit s = e"
  shows "merged hl e K c s (fst (coalesce bp s)) (snd (coalesce bp s))"
proof -
  note z = zipper_reads [OF lay [unfolded K] bp]
  note nr = next_reads_block [OF z(8)]
  have tB: "0 \<le> total_size Bb" and tA: "0 \<le> total_size A" by (rule total_size_nonneg)+
  have n8: "8 \<le> uint ns" using z(8) by (rule layout_size_ge8)
  have bb: "uint ps + uint c + uint ns < 4294967296"
    using bnd tB tA by (simp add: K)
  have "uint ps + uint ns < 4294967296" using bb z(7) by linarith
  then have u1: "uint (ps + ns) = uint ps + uint ns" by (rule uint_add32)
  have "uint c + uint (ps + ns) < 4294967296" using bb u1 by linarith
  then have "uint (c + (ps + ns)) = uint c + uint (ps + ns)" by (rule uint_add32)
  then have "uint (c + (ps + ns)) = uint ps + uint c + uint ns" using u1 by simp
  define w where "w = c + (ps + ns)"
  have u: "uint w = uint ps + uint c + uint ns"
    using \<open>uint (c + (ps + ns)) = uint ps + uint c + uint ns\<close> by (simp only: w_def)
  let ?v = "PACK w 0"
  let ?m = "PUT (PUT (mem s) (bp - uint ps - 4) ?v) (bp + uint c + uint ns - 8) ?v"
  let ?nf = "if bp - uint ps \<le> next_fit s \<and> next_fit s < bp - uint ps + uint w
             then bp - uint ps else next_fit s"
  have co: "coalesce bp s = (bp - uint ps, s\<lparr>mem := ?m, next_fit := ?nf\<rparr>)"
    unfolding w_def
    using coalesce_reads [OF z(4) z(7) z(1) z(6) z(3) z(2) nr(1) nr(2) nr(3) bb] by simp
  have l: "layout ?m hl (A @ (w, 0) # Bb)"
    using layout_replace [of "mem s" hl A "[(ps, 0), (c, 0), (ns, 0)]" Bb w 0 "bp - uint ps"] lay
    by (simp add: K u bp add.assoc)
  have ep: "GET ?m (e - 4) = PACK 0 1"
    using epi tB z(6) z(7) n8 by (simp add: GET_PUT2_other e K bp)
  show ?thesis
    unfolding co fst_conv snd_conv
  proof (rule mergedI [where A' = A and c' = w and B' = Bb])
    show "layout (mem (s\<lparr>mem := ?m, next_fit := ?nf\<rparr>)) hl (A @ (w, 0) # Bb)"
      using l by simp
    show "bp - uint ps = hl + total_size A" by (simp add: bp)
    show "uint c \<le> uint w" by (simp add: u)
    show "hd A = hd K" using A by (cases A) (simp_all add: K)
    show "total_size (A @ (w, 0) # Bb) = total_size K" by (simp add: K u)
    show "naf (A @ (w, 0) # Bb)"
      using nA nB A by (auto simp add: naf_append naf_Cons)
    show "next_fit (s\<lparr>mem := ?m, next_fit := ?nf\<rparr>) \<in> set (starts hl (A @ (w, 0) # Bb))
          \<or> next_fit (s\<lparr>mem := ?m, next_fit := ?nf\<rparr>) = e"
      using cur z(6) z(7) n8 by (auto simp add: K starts_append bp u add.assoc)
    show "allocated hl (A @ (w, 0) # Bb) = allocated hl K"
      by (simp add: K allocated_append u add.assoc)
    show "GET (mem (s\<lparr>mem := ?m, next_fit := ?nf\<rparr>)) (e - 4) = PACK 0 1" using ep by simp
  qed (simp_all add: A)
qed

lemma coalesce_inv:
  assumes K: "K = A @ (c, 0) # B"
      and A: "A \<noteq> []" and hdK: "snd (hd K) = 1"
      and lay: "layout (mem s) hl K"
      and e: "e = hl + total_size K"
      and epi: "GET (mem s) (e - 4) = PACK 0 1"
      and bnd: "total_size K < 4294967296"
      and bp: "bp = hl + total_size A"
      and nA: "naf A" and nB: "naf B"
      and cur: "next_fit s \<in> set (starts hl K) \<or> next_fit s = e"
  shows "merged hl e K c s (fst (coalesce bp s)) (snd (coalesce bp s))"
proof -
  from A obtain A0 pb where A0: "A = A0 @ [pb]" by (cases A rule: rev_cases) auto
  obtain ps pa where pb: "pb = (ps, pa)" by (cases pb)
  have K': "K = A0 @ (ps, pa) # (c, 0) # B" by (simp add: K A0 pb)
  have bp': "bp = hl + total_size A0 + uint ps" by (simp add: bp A0 pb)
  have nA': "naf (A0 @ [(ps, pa)])" using nA by (simp add: A0 pb)
  from lay have "layout (mem s) (hl + total_size A0) ((ps, pa) # (c, 0) # B)"
    by (simp add: K' layout_append)
  then have pa: "pa = 0 \<or> pa = 1" and lB: "layout (mem s) (hl + total_size A0 + uint ps + uint c) B"
    by (simp_all add: add.assoc)
  have A0ne: "A0 \<noteq> []" if "pa = 0"
  proof
    assume "A0 = []"
    with hdK K' that show False by simp
  qed
  have nxt: "B = [] \<or> snd (hd B) = 1 \<or> (\<exists>ns Bb. B = (ns, 0) # Bb)"
  proof (cases B)
    case Nil
    then show ?thesis by simp
  next
    case (Cons b Bb)
    obtain ns na where b: "b = (ns, na)" by (cases b)
    from lB have "na = 0 \<or> na = 1" by (simp add: Cons b)
    then show ?thesis by (auto simp add: Cons b)
  qed
  from pa show ?thesis
  proof (elim disjE)
    assume p0: "pa = 0"
    note A0ne = A0ne [OF p0]
    have K0: "K = A0 @ (ps, 0) # (c, 0) # B" using K' p0 by simp
    have nA0: "naf (A0 @ [(ps, 0)])" using nA' p0 by simp
    from nxt show ?thesis
    proof (elim disjE exE)
      assume "B = []"
      then have "B = [] \<or> snd (hd B) = 1" by simp
      with K0 A0ne lay e epi bnd bp' nA0 nB show ?thesis using cur by (rule coalesce_inv_prev)
    next
      assume "snd (hd B) = 1"
      then have "B = [] \<or> snd (hd B) = 1" by simp
      with K0 A0ne lay e epi bnd bp' nA0 nB show ?thesis using cur by (rule coalesce_inv_prev)
    next
      fix ns Bb assume B: "B = (ns, 0) # Bb"
      have K1: "K = A0 @ (ps, 0) # (c, 0) # (ns, 0) # Bb" using K0 B by simp
      have nB1: "naf ((ns, 0) # Bb)" using nB B by simp
      from K1 A0ne lay e epi bnd bp' nA0 nB1 cur show ?thesis by (rule coalesce_inv_both)
    qed
  next
    assume p1: "pa = 1"
    have K0: "K = A0 @ (ps, 1) # (c, 0) # B" using K' p1 by simp
    have nA0: "naf (A0 @ [(ps, 1)])" using nA' p1 by simp
    from nxt show ?thesis
    proof (elim disjE exE)
      assume "B = []"
      then have "B = [] \<or> snd (hd B) = 1" by simp
      with K0 lay e epi bnd bp' nA0 nB show ?thesis using cur by (rule coalesce_inv_keep)
    next
      assume "snd (hd B) = 1"
      then have "B = [] \<or> snd (hd B) = 1" by simp
      with K0 lay e epi bnd bp' nA0 nB show ?thesis using cur by (rule coalesce_inv_keep)
    next
      fix ns Bb assume B: "B = (ns, 0) # Bb"
      have K1: "K = A0 @ (ps, 1) # (c, 0) # (ns, 0) # Bb" using K0 B by simp
      have nB1: "naf ((ns, 0) # Bb)" using nB B by simp
      from K1 lay e epi bnd bp' nA0 nB1 cur show ?thesis by (rule coalesce_inv_next)
    qed
  qed
qed

subsection \<open>mm\_free keeps the invariant\<close>

lemma mm_free_coalesce: "mm_free bp s = snd (coalesce bp (mark_free bp s))"
  by (simp add: mm_free_def mark_free_def Let_def)

lemma mark_free_reads:
  assumes "GET_SIZE (mem s) (bp - 4) = c"
  shows "mark_free bp s = s\<lparr>mem := PUT (PUT (mem s) (bp - 4) (PACK c 0)) (bp + uint c - 8) (PACK c 0)\<rparr>"
proof -
  have d: "8 dvd uint c" using assms size_dvd8 [of "mem s" "bp - 4"] by simp
  have "GET_SIZE (PUT (mem s) (bp - 4) (PACK c 0)) (bp - 4) = c" using d by (rule GET_SIZE_PUT_PACK)
  then show ?thesis
    using assms by (simp add: mark_free_def Let_def HDRP_def FTRP_def WSIZE_def DSIZE_def ucast_up_down)
qed

lemma mm_free_inv:
  assumes inv: "heap_inv K s"
      and bp: "bp \<in> allocated (heap_listp s) K" "bp \<noteq> heap_listp s"
  shows "\<exists>K'. heap_inv K' (mm_free bp s)
           \<and> heap_listp (mm_free bp s) = heap_listp s
           \<and> allocated (heap_listp s) K' = allocated (heap_listp s) K - {bp}
           \<and> mem_brk (mm_free bp s) = mem_brk s
           \<and> mem_max_addr (mm_free bp s) = mem_max_addr s
           \<and> (\<forall>a. (a \<in> owned (heap_listp s) K
                     \<and> \<not> (bp - 4 \<le> a \<and> a < bp + uint (GET_SIZE (mem s) (bp - 4)) - 4))
                  \<or> a < heap_listp s - 4 \<or> mem_brk s - 4 \<le> a
                  \<longrightarrow> mem (mm_free bp s) a = mem s a)"
proof -
  let ?hl = "heap_listp s"
  let ?e = "mem_brk s"
  from inv have Kne: "K \<noteq> []" and hdK: "hd K = (8, 1)" and lay: "layout (mem s) ?hl K"
    and brk: "?e = ?hl + total_size K" and epi: "GET (mem s) (?e - 4) = PACK 0 1" and nK: "naf K"
    and cur: "next_fit s \<in> set (starts ?hl K) \<or> next_fit s = ?e"
    and le: "?e \<le> mem_max_addr s" and mx: "mem_max_addr s - ?hl < 4294967296"
    unfolding heap_inv_def by blast+
  from allocated_split [OF bp(1)] obtain A c B where K: "K = A @ (c, 1) # B" and b: "bp = ?hl + total_size A"
    by blast
  have A: "A \<noteq> []" using b bp(2) by auto
  have tB: "0 \<le> total_size B" and tA: "0 \<le> total_size A" by (rule total_size_nonneg)+
  from lay have lA: "layout (mem s) ?hl A" and lc: "layout (mem s) bp ((c, 1) # B)"
    by (simp_all add: K layout_append b)
  have c8: "8 \<le> uint c" using lc by (rule layout_size_ge8)
  have rc: "GET_SIZE (mem s) (bp - 4) = c" using lc by (rule layout_hd_reads)
  let ?m = "PUT (PUT (mem s) (bp - 4) (PACK c 0)) (bp + uint c - 8) (PACK c 0)"
  let ?s1 = "s\<lparr>mem := ?m\<rparr>"
  let ?K1 = "A @ (c, 0) # B"
  have mf: "mark_free bp s = ?s1" using rc by (rule mark_free_reads)
  have l1: "layout (mem ?s1) ?hl ?K1"
    using layout_replace [of "mem s" ?hl A "[(c, 1)]" B c 0 bp] lay by (simp add: K b)
  have e1: "?e = ?hl + total_size ?K1" using brk by (simp add: K)
  have ep1: "GET (mem ?s1) (?e - 4) = PACK 0 1"
    using epi c8 tB by (simp add: GET_PUT2_other brk K b)
  have bnd: "total_size ?K1 < 4294967296" using e1 le mx by linarith
  have hd1: "snd (hd ?K1) = 1" using hdK A by (cases A) (simp_all add: K)
  have nA: "naf A" and nB: "naf B" using nK by (simp_all add: K naf_append naf_Cons)
  have cur1: "next_fit ?s1 \<in> set (starts ?hl ?K1) \<or> next_fit ?s1 = ?e"
    using cur by (simp add: K starts_append)
  have "merged ?hl ?e ?K1 c ?s1 (fst (coalesce bp ?s1)) (snd (coalesce bp ?s1))"
    using refl A hd1 l1 e1 ep1 bnd b nA nB cur1 by (rule coalesce_inv)
  then obtain A' c' B' where
        l': "layout (mem (mm_free bp s)) ?hl (A' @ (c', 0) # B')"
    and A': "A' \<noteq> []" and hd': "hd A' = hd ?K1"
    and t': "total_size (A' @ (c', 0) # B') = total_size ?K1"
    and n': "naf (A' @ (c', 0) # B')"
    and cur': "next_fit (mm_free bp s) \<in> set (starts ?hl (A' @ (c', 0) # B')) \<or> next_fit (mm_free bp s) = ?e"
    and al': "allocated ?hl (A' @ (c', 0) # B') = allocated ?hl ?K1"
    and ep': "GET (mem (mm_free bp s)) (?e - 4) = PACK 0 1"
    and st: "mm_free bp s = ?s1\<lparr>mem := mem (mm_free bp s), next_fit := next_fit (mm_free bp s)\<rparr>"
    unfolding merged_def mm_free_coalesce mf by blast
  have f: "heap_listp (mm_free bp s) = ?hl" "mem_brk (mm_free bp s) = ?e"
     "mem_max_addr (mm_free bp s) = mem_max_addr s"
    by (subst st, simp)+
  have "bp \<notin> allocated ?hl A" using allocated_range [OF lA, of bp] b by auto
  moreover have "bp \<notin> allocated (bp + uint c) B"
    using allocated_range [of "mem s" "bp + uint c" B bp] lc c8 by auto
  ultimately have al: "allocated ?hl ?K1 = allocated ?hl K - {bp}"
    by (auto simp add: K allocated_append b)
  have fr: "mem (mm_free bp s) a = mem s a"
    if a: "(a \<in> owned ?hl K \<and> \<not> (bp - 4 \<le> a \<and> a < bp + uint (GET_SIZE (mem s) (bp - 4)) - 4))
           \<or> a < ?hl - 4 \<or> ?e - 4 \<le> a" for a
  proof -
    have 1: "a \<in> owned ?hl ?K1 \<or> a < ?hl - 4 \<or> ?e - 4 \<le> a"
      using a unfolding rc by (auto simp add: K owned_append b add.assoc)
    have "mem (mm_free bp s) a = mem ?s1 a"
      unfolding mm_free_coalesce mf using refl A l1 e1 ep1 bnd b 1 by (rule coalesce_frame)
    moreover have "a < bp - 4 \<or> bp + uint c - 4 \<le> a"
      using 1
    proof (elim disjE)
      assume "a \<in> owned ?hl ?K1"
      then have "a \<in> owned ?hl A \<or> a \<in> owned (bp + uint c) B"
        by (simp add: owned_append b add.assoc)
      then show ?thesis
        using owned_range [of a ?hl A] owned_range [of a "bp + uint c" B] by (auto simp add: b)
    next
      assume "a < ?hl - 4"
      with tA show ?thesis by (simp add: b)
    next
      assume "?e - 4 \<le> a"
      with tB show ?thesis by (simp add: brk K b)
    qed
    then have "?m a = mem s a" using c8 by (auto simp add: PUT_other_byte)
    ultimately show ?thesis by simp
  qed
  have "heap_inv (A' @ (c', 0) # B') (mm_free bp s)"
    unfolding heap_inv_def f
    using A' hd' hdK A l' t' e1 ep' n' cur' le mx by (cases A; cases A') (simp_all add: K)
  with al al' f fr show ?thesis by auto
qed

subsection \<open>place keeps the invariant\<close>

lemma heap_invD:
  assumes "heap_inv K s"
  shows "K \<noteq> []" "hd K = (8, 1)" "layout (mem s) (heap_listp s) K"
    "mem_brk s = heap_listp s + total_size K" "GET (mem s) (mem_brk s - 4) = PACK 0 1" "naf K"
    "next_fit s \<in> set (starts (heap_listp s) K) \<or> next_fit s = mem_brk s"
    "mem_brk s \<le> mem_max_addr s" "mem_max_addr s - heap_listp s < 4294967296"
  using assms unfolding heap_inv_def by blast+

lemma starts_split:
  "x \<in> set (starts p L) \<Longrightarrow> \<exists>A c a B. L = A @ (c, a) # B \<and> x = p + total_size A"
proof (induction L arbitrary: p)
  case Nil
  then show ?case by simp
next
  case (Cons b L)
  obtain sz al where b: "b = (sz, al)" by (cases b)
  show ?case
  proof (cases "x = p")
    case True
    then have "b # L = [] @ (sz, al) # L \<and> x = p + total_size []" by (simp add: b)
    then show ?thesis by blast
  next
    case False
    with Cons.prems have "x \<in> set (starts (p + uint sz) L)" by (simp add: b)
    from Cons.IH [OF this] obtain A c a B where "L = A @ (c, a) # B" "x = p + uint sz + total_size A"
      by blast
    then have "b # L = (b # A) @ (c, a) # B \<and> x = p + total_size (b # A)" by (simp add: b)
    then show ?thesis by blast
  qed
qed

lemma place_inv:
  assumes inv: "heap_inv K s"
      and K: "K = A @ (C, 0) # B" and A: "A \<noteq> []"
      and bp: "bp = heap_listp s + total_size A"
      and a8: "8 dvd uint asize" and a0: "asize \<noteq> 0" and le: "asize \<le> C"
  shows "\<exists>K'. heap_inv K' (place bp asize s)
           \<and> heap_listp (place bp asize s) = heap_listp s
           \<and> allocated (heap_listp s) K' = insert bp (allocated (heap_listp s) K)
           \<and> bp \<notin> allocated (heap_listp s) K \<and> bp \<noteq> heap_listp s"
proof -
  let ?hl = "heap_listp s"
  let ?e = "mem_brk s"
  note I = heap_invD [OF inv]
  have tB: "0 \<le> total_size B" and tA: "0 \<le> total_size A" by (rule total_size_nonneg)+
  from I(3) have lA: "layout (mem s) ?hl A" and lc: "layout (mem s) bp ((C, 0) # B)"
    by (simp_all add: K layout_append bp)
  have A8: "8 \<le> total_size A" using lA A by (rule layout_total_ge8)
  have c8: "8 \<le> uint C" using lc by (rule layout_size_ge8)
  have rc: "GET_SIZE (mem s) (bp - 4) = C" using lc by (rule layout_hd_reads)
  have Cd: "8 dvd uint C" using lc by simp
  have x8: "8 \<le> uint asize" using dvd8_cases [OF a8] a0 by (auto simp add: uint_0_iff)
  have hdK: "hd A = (8, 1)" using I(2) A by (cases A) (simp_all add: K)
  have nA: "naf A" and nB: "naf B" and nx: "B = [] \<or> snd (hd B) \<noteq> 0"
    and lastA: "snd (last A) \<noteq> 0"
    using I(6) A by (auto simp add: K naf_append naf_Cons)
  have "bp \<notin> allocated ?hl A" using allocated_range [OF lA, of bp] bp by auto
  moreover have "bp \<notin> allocated (bp + uint C) B"
    using allocated_range [of "mem s" "bp + uint C" B bp] lc c8 by auto
  ultimately have notin: "bp \<notin> allocated ?hl K"
    by (auto simp add: K allocated_append bp)
  have ne: "bp \<noteq> ?hl" using A8 bp by simp
  note pe = place_explicit [OF a8 rc le]
  show ?thesis
  proof (cases "16 \<le> uint C - uint asize")
    case True
    let ?y = "C - asize"
    have yu: "uint ?y = uint C - uint asize" using le by (rule uint_sub32)
    have y0: "?y \<noteq> 0" using True yu by (auto simp add: uint_0_iff)
    have y8: "8 dvd uint ?y" using Cd a8 le by (rule dvd8_sub)
    let ?m = "PUT (PUT (PUT (PUT (mem s) (bp - 4) (PACK asize 1)) (bp + uint asize - 8) (PACK asize 1))
                    (bp + uint asize - 4) (PACK ?y 0)) (bp + uint C - 8) (PACK ?y 0)"
    let ?nf = "if next_fit s = bp + uint asize then bp + uint C else next_fit s"
    let ?K' = "A @ (asize, 1) # (?y, 0) # B"
    have ps: "place bp asize s = s\<lparr>mem := ?m, next_fit := ?nf\<rparr>" using pe True by simp
    have l: "layout ?m ?hl ?K'"
      using I(3) [unfolded K] a0 a8 y0 y8 _ _ _ bp by (rule layout_split) (simp_all add: yu)
    have ep: "GET ?m (?e - 4) = PACK 0 1"
      using I(5) c8 x8 True tB by (simp add: GET_PUT_other I(4) K bp)
    have cur: "?nf \<in> set (starts ?hl ?K') \<or> ?nf = ?e"
      using I(7) by (cases B) (auto simp add: K starts_append bp I(4) yu add.assoc)
    have n: "naf ?K'" using nA nB nx lastA A by (auto simp add: naf_append naf_Cons)
    have "heap_inv ?K' (place bp asize s)"
      unfolding heap_inv_def ps
      using A hdK l ep cur n I(4) I(8) I(9) by (cases A) (simp_all add: K yu)
    moreover have "allocated ?hl ?K' = insert bp (allocated ?hl K)"
      by (auto simp add: K allocated_append bp yu add.assoc)
    ultimately show ?thesis using notin ne by (auto simp add: ps)
  next
    case False
    let ?m = "PUT (PUT (mem s) (bp - 4) (PACK C 1)) (bp + uint C - 8) (PACK C 1)"
    let ?nf = "if next_fit s = bp then bp + uint C else next_fit s"
    let ?K' = "A @ (C, 1) # B"
    have ps: "place bp asize s = s\<lparr>mem := ?m, next_fit := ?nf\<rparr>" using pe False by simp
    have l: "layout ?m ?hl ?K'"
      using layout_replace [of "mem s" ?hl A "[(C, 0)]" B C 1 bp] I(3) by (simp add: K bp)
    have ep: "GET ?m (?e - 4) = PACK 0 1"
      using I(5) c8 tB by (simp add: GET_PUT_other I(4) K bp)
    have cur: "?nf \<in> set (starts ?hl ?K') \<or> ?nf = ?e"
      using I(7) by (cases B) (auto simp add: K starts_append bp I(4) add.assoc)
    have n: "naf ?K'" using nA nB by (auto simp add: naf_append naf_Cons)
    have "heap_inv ?K' (place bp asize s)"
      unfolding heap_inv_def ps
      using A hdK l ep cur n I(4) I(8) I(9) by (cases A) (simp_all add: K)
    moreover have "allocated ?hl ?K' = insert bp (allocated ?hl K)"
      by (auto simp add: K allocated_append bp add.assoc)
    ultimately show ?thesis using notin ne by (auto simp add: ps)
  qed
qed

text \<open>\<open>place\<close> stores inside the free block only.\<close>

lemma place_frame:
  assumes inv: "heap_inv K s"
      and K: "K = A @ (C, 0) # B" and A: "A \<noteq> []"
      and bp: "bp = heap_listp s + total_size A"
      and a8: "8 dvd uint asize" and a0: "asize \<noteq> 0" and le: "asize \<le> C"
      and a: "a \<in> owned (heap_listp s) K \<or> a < heap_listp s - 4 \<or> mem_brk s - 4 \<le> a"
  shows "mem (place bp asize s) a = mem s a"
proof -
  let ?hl = "heap_listp s"
  note I = heap_invD [OF inv]
  have tB: "0 \<le> total_size B" and tA: "0 \<le> total_size A" by (rule total_size_nonneg)+
  from I(3) have lc: "layout (mem s) bp ((C, 0) # B)" by (simp add: K layout_append bp)
  have rc: "GET_SIZE (mem s) (bp - 4) = C" using lc by (rule layout_hd_reads)
  have x8: "8 \<le> uint asize" using dvd8_cases [OF a8] a0 by (auto simp add: uint_0_iff)
  have xc: "uint asize \<le> uint C" using le by (simp add: word_le_def)
  have pos: "a < bp - 4 \<or> bp + uint C - 4 \<le> a"
    using a
  proof (elim disjE)
    assume "a \<in> owned ?hl K"
    then have "a \<in> owned ?hl A \<or> a \<in> owned (bp + uint C) B"
      by (simp add: K owned_append bp add.assoc)
    then show ?thesis
      using owned_range [of a ?hl A] owned_range [of a "bp + uint C" B] by (auto simp add: bp)
  next
    assume "a < ?hl - 4"
    with tA show ?thesis by (simp add: bp)
  next
    assume "mem_brk s - 4 \<le> a"
    with tB show ?thesis by (simp add: I(4) K bp)
  qed
  show ?thesis
    unfolding place_explicit [OF a8 rc le]
    using pos x8 xc by (auto simp add: PUT_other_byte)
qed

lemma place_fields:
  "heap_listp (place bp asize s) = heap_listp s" "mem_brk (place bp asize s) = mem_brk s"
  "mem_max_addr (place bp asize s) = mem_max_addr s"
  by (simp_all add: place_def Let_def split_beta)

lemma place_header:
  assumes "8 dvd uint asize" and "asize \<noteq> 0" and "asize \<le> GET_SIZE (mem s) (bp - 4)"
  shows "GET_ALLOC (mem (place bp asize s)) (bp - 4) = 1"
    and "asize \<le> GET_SIZE (mem (place bp asize s)) (bp - 4)"
proof -
  from assms(3) have le: "asize \<le> GET_SIZE (mem s) (HDRP bp)" by (simp add: HDRP_def WSIZE_def)
  note t = place_tags [OF assms(1,2) le, unfolded Let_def HDRP_def WSIZE_def]
  have "GET_ALLOC (mem (place bp asize s)) (bp - 4) = 1
        \<and> (GET_SIZE (mem (place bp asize s)) (bp - 4) = asize
           \<or> GET_SIZE (mem (place bp asize s)) (bp - 4) = GET_SIZE (mem s) (bp - 4))"
  proof (cases "16 \<le> uint (GET_SIZE (mem s) (bp - 4)) - uint asize")
    case True
    from t [unfolded if_P [OF True]] show ?thesis by blast
  next
    case False
    from t [unfolded if_not_P [OF False]] show ?thesis by blast
  qed
  then show "GET_ALLOC (mem (place bp asize s)) (bp - 4) = 1"
    and "asize \<le> GET_SIZE (mem (place bp asize s)) (bp - 4)"
    using assms(3) by auto
qed

subsection \<open>extend\_heap keeps the invariant\<close>

lemma extend_heap_fails:
  "mem_brk s + int (unat (extend_heap_size words)) > mem_max_addr s \<Longrightarrow>
   extend_heap words s = (None, s)"
  by (simp add: extend_heap_def mem_sbrk_def Let_def)

lemma extend_heap_inv:
  assumes inv: "heap_inv K s"
      and n: "uint (extend_heap_size words) = n" "8 dvd n" "8 \<le> n" "n < 4294967296"
      and ok: "mem_brk s + n \<le> mem_max_addr s"
  shows "\<exists>r s' A c B. extend_heap words s = (Some r, s') \<and> heap_inv (A @ (c, 0) # B) s'
           \<and> A \<noteq> [] \<and> r = heap_listp s + total_size A \<and> n \<le> uint c
           \<and> allocated (heap_listp s) (A @ (c, 0) # B) = allocated (heap_listp s) K
           \<and> heap_listp s' = heap_listp s
           \<and> mem_brk s' = mem_brk s + n \<and> mem_max_addr s' = mem_max_addr s
           \<and> (\<forall>a. a \<in> owned (heap_listp s) K \<or> a < heap_listp s - 4 \<or> mem_brk s + n \<le> a
                  \<longrightarrow> mem s' a = mem s a)"
proof -
  let ?hl = "heap_listp s"
  let ?bp = "mem_brk s"
  note I = heap_invD [OF inv]
  define w :: "32 word" where "w = ucast (extend_heap_size words)"
  have wu: "uint w = n"
    using n(1) n(4) n(3) by (simp add: w_def ucast_down_wi uint_word_of_int take_bit_eq_mod)
  have w8: "8 dvd uint w" using n(2) wu by simp
  have w0: "w \<noteq> 0" using wu n(3) by (auto simp add: uint_0_iff)
  have un: "int (unat (extend_heap_size words)) = n" using n(1) by simp
  let ?s1 = "s\<lparr>mem_brk := ?bp + n\<rparr>"
  have sb: "mem_sbrk (unat (extend_heap_size words)) s = (Some ?bp, ?s1)"
    using ok by (simp add: mem_sbrk_def n(1))
  let ?m1 = "PUT (mem s) (?bp - 4) (PACK w 0)"
  let ?m2 = "PUT ?m1 (?bp + n - 8) (PACK w 0)"
  let ?m3 = "PUT ?m2 (?bp + n - 4) (PACK 0 1)"
  let ?s2 = "?s1\<lparr>mem := ?m3\<rparr>"
  have f1: "FTRP ?m1 ?bp = ?bp + n - 8"
    by (simp add: FTRP_def HDRP_def WSIZE_def DSIZE_def GET_SIZE_PUT_PACK [OF w8] wu)
  have "GET_SIZE ?m2 (?bp - 4) = w"
    using n(3) by (simp add: GET_SIZE_PUT_other GET_SIZE_PUT_PACK [OF w8])
  then have f2: "NEXT_BLKP ?m2 ?bp = ?bp + n" by (simp add: NEXT_BLKP_def WSIZE_def wu)
  have eh: "extend_heap words s = (Some (fst (coalesce ?bp ?s2)), snd (coalesce ?bp ?s2))"
    by (simp add: extend_heap_def Let_def sb w_def [symmetric] f1 f2 HDRP_def WSIZE_def split_beta)
  let ?K1 = "K @ [(w, 0)]"
  let ?e = "?bp + n"
  have "layout ?m1 ?hl K" using I(3) by (rule layout_PUT) (simp add: I(4))
  then have "layout ?m2 ?hl K" by (rule layout_PUT) (use n(3) in \<open>simp add: I(4)\<close>)
  then have lK: "layout ?m3 ?hl K" by (rule layout_PUT) (use n(3) in \<open>simp add: I(4)\<close>)
  have h: "GET ?m3 (?bp - 4) = PACK w 0"
    using n(3) by (simp add: GET_PUT_other GET_PUT_same)
  have f: "GET ?m3 (?bp + n - 8) = PACK w 0"
    by (simp add: GET_PUT_other GET_PUT_same)
  have l1: "layout (mem ?s2) ?hl ?K1"
    using lK h f w0 w8 by (simp add: layout_append I(4) wu)
  have e1: "?e = ?hl + total_size ?K1" by (simp add: I(4) wu)
  have ep1: "GET (mem ?s2) (?e - 4) = PACK 0 1" by (simp add: GET_PUT_same)
  have bnd: "total_size ?K1 < 4294967296" using e1 ok I(9) by linarith
  have hd1: "snd (hd ?K1) = 1" using I(1) I(2) by (cases K) simp_all
  have cur1: "next_fit ?s2 \<in> set (starts ?hl ?K1) \<or> next_fit ?s2 = ?e"
    using I(7) by (auto simp add: starts_append I(4))
  have "merged ?hl ?e ?K1 w ?s2 (fst (coalesce ?bp ?s2)) (snd (coalesce ?bp ?s2))"
    using refl I(1) hd1 l1 e1 ep1 bnd I(4) I(6) _ cur1 by (rule coalesce_inv) simp
  then obtain A' c' B' s' r where
        eh': "extend_heap words s = (Some r, s')"
    and l': "layout (mem s') ?hl (A' @ (c', 0) # B')"
    and r: "r = ?hl + total_size A'" and cw: "uint w \<le> uint c'"
    and A': "A' \<noteq> []" and hd': "hd A' = hd ?K1"
    and t': "total_size (A' @ (c', 0) # B') = total_size ?K1"
    and n': "naf (A' @ (c', 0) # B')"
    and cur': "next_fit s' \<in> set (starts ?hl (A' @ (c', 0) # B')) \<or> next_fit s' = ?e"
    and al': "allocated ?hl (A' @ (c', 0) # B') = allocated ?hl ?K1"
    and ep': "GET (mem s') (?e - 4) = PACK 0 1"
    and st: "s' = ?s2\<lparr>mem := mem s', next_fit := next_fit s'\<rparr>"
    unfolding merged_def eh by blast
  have fl: "heap_listp s' = ?hl" "mem_brk s' = ?e" "mem_max_addr s' = mem_max_addr s"
    by (subst st, simp)+
  have hdK1: "hd ?K1 = (8, 1)" using I(1) I(2) by (cases K) simp_all
  have "heap_inv (A' @ (c', 0) # B') s'"
    unfolding heap_inv_def fl
    using A' hd' hdK1 l' t' e1 ep' n' cur' ok I(9) by (cases A') simp_all
  moreover have "allocated ?hl ?K1 = allocated ?hl K" by (simp add: allocated_append)
  moreover have "mem s' a = mem s a" if a: "a \<in> owned ?hl K \<or> a < ?hl - 4 \<or> ?e \<le> a" for a
  proof -
    have co: "s' = snd (coalesce ?bp ?s2)" using eh eh' by simp
    have tK: "0 \<le> total_size K" by (rule total_size_nonneg)
    have 1: "a \<in> owned ?hl ?K1 \<or> a < ?hl - 4 \<or> ?e - 4 \<le> a"
      using a by (auto simp add: owned_append)
    have "mem s' a = mem ?s2 a"
      unfolding co using refl I(1) l1 e1 ep1 bnd I(4) 1 by (rule coalesce_frame)
    moreover have "a < ?bp - 4 \<or> ?e \<le> a"
      using a owned_range [of a ?hl K] tK by (auto simp add: I(4))
    then have "?m3 a = mem s a" using n(3) by (auto simp add: PUT_other_byte)
    ultimately show ?thesis by simp
  qed
  ultimately show ?thesis using eh' A' r cw wu al' fl by auto
qed

subsection \<open>Rounding and growth for requests in range\<close>

lemma sint32_small:
  assumes "uint (w :: 32 word) < 2147483648"
  shows "sint w = uint w"
proof -
  have "sint w = (uint w + 2147483648) mod 4294967296 - 2147483648"
    using int_word_sint [where 'a = 32, of "uint w"] by simp
  moreover have "(uint w + 2147483648) mod 4294967296 = uint w + 2147483648"
    using assms by (intro mod_pos_pos_trivial) simp_all
  ultimately show ?thesis by simp
qed

lemma uint_scast_small:
  assumes "uint (w :: 32 word) < 2147483648"
  shows "uint (scast w :: 64 word) = uint w"
proof -
  have "uint (scast w :: 64 word) = uint w mod 2 ^ LENGTH(64)"
    unfolding scast_eq sint32_small [OF assms] uint_word_of_int ..
  also have "\<dots> = uint w"
    using assms by (intro mod_pos_pos_trivial) simp_all
  finally show ?thesis .
qed

lemma uint_ucast_down_small:
  assumes "uint (x :: 64 word) < 4294967296"
  shows "uint (ucast x :: 32 word) = uint x"
proof -
  have "uint (ucast x :: 32 word) = uint x mod 2 ^ LENGTH(32)"
    unfolding ucast_down_wi uint_word_of_int ..
  also have "\<dots> = uint x" using assms by (intro mod_pos_pos_trivial) simp_all
  finally show ?thesis .
qed

text \<open>
  Requests of at most 2147483632 bytes: the adjusted size is in range and the heap
  grows by the larger of the adjusted size and the chunk size.
\<close>

lemma asize_in_range:
  assumes "sz \<noteq> 0" and "uint sz \<le> 2147483632"
  shows "uint (ucast (adjusted_size sz) :: 32 word) = uint (adjusted_size sz)"
    and "8 dvd uint (ucast (adjusted_size sz) :: 32 word)"
    and "16 \<le> uint (ucast (adjusted_size sz) :: 32 word)"
    and "uint (ucast (adjusted_size sz) :: 32 word) < 2147483648"
proof -
  have r: "uint sz \<le> 4294967280" using assms(2) by simp
  note a = adjusted_size_in_range [OF assms(1) r]
  have lt: "uint (adjusted_size sz) < 2147483648" using a(4) assms(2) by linarith
  then have "uint (adjusted_size sz) < 4294967296" by simp
  then show e: "uint (ucast (adjusted_size sz) :: 32 word) = uint (adjusted_size sz)"
    by (rule uint_ucast_down_small)
  show "8 dvd uint (ucast (adjusted_size sz) :: 32 word)" unfolding e by (rule a(2))
  show "16 \<le> uint (ucast (adjusted_size sz) :: 32 word)" unfolding e by (rule a(5))
  show "uint (ucast (adjusted_size sz) :: 32 word) < 2147483648" unfolding e by (rule lt)
qed

lemma extend_request:
  assumes "sz \<noteq> 0" and "uint sz \<le> 2147483632"
  shows "uint (extend_heap_size (ucast (extendsize (adjusted_size sz) div 4)))
           = max (uint (adjusted_size sz)) 4096"
proof -
  let ?a = "ucast (adjusted_size sz) :: 32 word"
  note r = asize_in_range [OF assms]
  define x where "x = MAX_int ?a CHUNKSIZE"
  define M where "M = max (uint (adjusted_size sz)) 4096"
  have ch: "uint CHUNKSIZE = 4096" "sint CHUNKSIZE = 4096" by (simp_all add: CHUNKSIZE_def)
  have xu: "uint x = M"
    using r(1) by (auto simp add: x_def M_def MAX_int_def sint32_small [OF r(4)] ch max_def)
  have M8: "8 dvd M" using r(2) r(1) by (auto simp add: M_def max_def)
  have Mlt: "M < 2147483648" "4096 \<le> M" using r(4) r(1) by (auto simp add: M_def)
  have e: "uint (extendsize (adjusted_size sz)) = M"
    using uint_scast_small [of x] xu Mlt by (simp add: extendsize_def x_def)
  define ws :: "32 word" where "ws = ucast (extendsize (adjusted_size sz) div 4)"
  have "uint (extendsize (adjusted_size sz) div 4) = M div 4" by (simp add: uint_div e)
  moreover have "M div 4 < 4294967296" using Mlt by simp
  ultimately have wu: "uint ws = M div 4"
    unfolding ws_def using uint_ucast_down_small [of "extendsize (adjusted_size sz) div 4"] by simp
  from M8 obtain k where k: "M = 8 * k" by (elim dvdE)
  have ev: "ws mod 2 = 0"
  proof -
    have "uint (ws mod 2) = (M div 4) mod 2" by (simp add: uint_mod wu)
    also have "\<dots> = 0" by (simp add: k)
    finally show ?thesis by (simp add: uint_0_iff)
  qed
  have "uint (ws * 4) = (M div 4 * 4) mod 4294967296"
    by (simp add: uint_word_ariths wu take_bit_eq_mod)
  also have "M div 4 * 4 = M" by (simp add: k)
  also have "M mod 4294967296 = M" using Mlt by (intro mod_pos_pos_trivial) simp_all
  finally have "uint (ws * 4) = M" .
  then show ?thesis
    by (simp add: extend_heap_size_def ev ws_def [symmetric] uint_ucast_up M_def)
qed

subsection \<open>find\_fit on a heap that satisfies the invariant\<close>

lemma chain_append:
  "chain m p (xs @ ys) q \<longleftrightarrow> (\<exists>r. chain m p xs r \<and> chain m r ys q)"
  by (induction xs arbitrary: p) auto

lemma heap_inv_chains:
  assumes "heap_inv K s"
  shows "\<exists>xs ys. chain (mem s) (heap_listp s) xs (next_fit s)
            \<and> chain (mem s) (next_fit s) ys (mem_brk s)
            \<and> set (ys @ xs) = set (starts (heap_listp s) K)"
proof -
  note I = heap_invD [OF assms]
  have ch: "chain (mem s) (heap_listp s) (starts (heap_listp s) K) (mem_brk s)"
    using layout_chain [OF I(3)] by (simp add: I(4))
  from I(7) show ?thesis
  proof
    assume "next_fit s \<in> set (starts (heap_listp s) K)"
    then obtain xs ys where sp: "starts (heap_listp s) K = xs @ next_fit s # ys"
      by (auto dest: split_list)
    from ch obtain r where "chain (mem s) (heap_listp s) xs r"
      and "chain (mem s) r (next_fit s # ys) (mem_brk s)"
      unfolding sp chain_append by blast
    then have "chain (mem s) (heap_listp s) xs (next_fit s)"
      and "chain (mem s) (next_fit s) (next_fit s # ys) (mem_brk s)" by auto
    moreover have "set ((next_fit s # ys) @ xs) = set (starts (heap_listp s) K)"
      by (auto simp add: sp)
    ultimately show ?thesis by blast
  next
    assume "next_fit s = mem_brk s"
    with ch have "chain (mem s) (heap_listp s) (starts (heap_listp s) K) (next_fit s)"
      and "chain (mem s) (next_fit s) [] (mem_brk s)" by simp_all
    moreover have "set ([] @ starts (heap_listp s) K) = set (starts (heap_listp s) K)" by simp
    ultimately show ?thesis by blast
  qed
qed

lemma heap_inv_cursor:
  "heap_inv K s \<Longrightarrow> x \<in> set (starts (heap_listp s) K) \<Longrightarrow> heap_inv K (s\<lparr>next_fit := x\<rparr>)"
  unfolding heap_inv_def by (elim conjE, intro conjI) simp_all

lemma find_SomeD: "List.find P l = Some b \<Longrightarrow> b \<in> set l \<and> P b"
  by (induction l) (auto split: if_splits)

text \<open>What the search returns on a heap that satisfies the invariant.\<close>

lemma find_fit_inv:
  assumes inv: "heap_inv K s"
  shows "(\<exists>A C B. find_fit asize s = Some (Some (heap_listp s + total_size A), s\<lparr>next_fit := heap_listp s + total_size A\<rparr>)
            \<and> K = A @ (C, 0) # B \<and> A \<noteq> [] \<and> asize \<le> C)
         \<or> (find_fit asize s = Some (None, s) \<and> (\<forall>C. (C, 0) \<in> set K \<longrightarrow> \<not> asize \<le> C))"
proof -
  note I = heap_invD [OF inv]
  from heap_inv_chains [OF inv] obtain xs ys where
    c1: "chain (mem s) (heap_listp s) xs (next_fit s)" and
    c2: "chain (mem s) (next_fit s) ys (mem_brk s)" and
    st: "set (ys @ xs) = set (starts (heap_listp s) K)" by blast
  have ez: "GET_SIZE (mem s) (HDRP (mem_brk s)) = 0"
    using next_reads_epilogue(1) [OF I(5)] by (simp add: HDRP_def WSIZE_def)
  note ff = find_fit_chain [OF c1 c2 ez, of asize]
  show ?thesis
  proof (cases "List.find (fits (mem s) asize) (ys @ xs)")
    case None
    then have nf: "\<forall>b \<in> set (starts (heap_listp s) K). \<not> fits (mem s) asize b"
      unfolding find_None_iff st [symmetric] by blast
    have "\<not> asize \<le> C" if "(C, 0) \<in> set K" for C
    proof -
      from that obtain A B where K: "K = A @ (C, 0) # B" by (auto simp add: in_set_conv_decomp)
      let ?b = "heap_listp s + total_size A"
      from I(3) have lc: "layout (mem s) ?b ((C, 0) # B)" by (simp add: K layout_append)
      have "?b \<in> set (starts (heap_listp s) K)" by (simp add: K starts_append)
      with nf have "\<not> fits (mem s) asize ?b" by blast
      with layout_hd_reads [OF lc] show ?thesis by (simp add: fits_def HDRP_def WSIZE_def)
    qed
    with None ff show ?thesis by simp
  next
    case (Some b)
    then have "b \<in> set (ys @ xs)" and fb: "fits (mem s) asize b"
      by (auto dest: find_SomeD)
    then have "b \<in> set (starts (heap_listp s) K)" unfolding st [symmetric] by simp
    from starts_split [OF this] obtain A C a B where K: "K = A @ (C, a) # B"
      and b: "b = heap_listp s + total_size A" by blast
    from I(3) have lc: "layout (mem s) b ((C, a) # B)" by (simp add: K layout_append b)
    from layout_hd_reads [OF lc] fb have a: "a = 0" and le: "asize \<le> C"
      by (simp_all add: fits_def HDRP_def WSIZE_def)
    have "A \<noteq> []"
    proof
      assume "A = []"
      with I(2) K a show False by simp
    qed
    with Some ff K a le b show ?thesis by auto
  qed
qed

subsection \<open>mm\_malloc and mm\_init\<close>

lemma mm_malloc_inv:
  assumes inv: "heap_inv K s"
      and sz: "sz \<noteq> 0" "uint sz \<le> 2147483632"
  shows "\<exists>r s' K'. mm_malloc sz s = Some (r, s') \<and> heap_inv K' s'
           \<and> heap_listp s' = heap_listp s
           \<and> (case r of
                None \<Rightarrow> allocated (heap_listp s) K' = allocated (heap_listp s) K
              | Some p \<Rightarrow> p \<notin> allocated (heap_listp s) K \<and> p \<noteq> heap_listp s
                         \<and> allocated (heap_listp s) K' = insert p (allocated (heap_listp s) K))
           \<and> mem_max_addr s' = mem_max_addr s
           \<and> (r = None \<longleftrightarrow>
                 (\<forall>C. (C, 0) \<in> set K \<longrightarrow> uint C < uint (adjusted_size sz))
                 \<and> mem_max_addr s < mem_brk s + max (uint (adjusted_size sz)) 4096)
           \<and> (r = None \<longrightarrow> s' = s)
           \<and> (\<forall>p. r = Some p \<longrightarrow> GET_ALLOC (mem s') (p - 4) = 1
                  \<and> uint (adjusted_size sz) \<le> uint (GET_SIZE (mem s') (p - 4)))
           \<and> (\<forall>a. a \<in> owned (heap_listp s) K \<or> a < heap_listp s - 4 \<or> mem_brk s' \<le> a
                  \<longrightarrow> mem s' a = mem s a)"
proof -
  let ?hl = "heap_listp s"
  let ?a = "ucast (adjusted_size sz) :: 32 word"
  let ?ws = "ucast (extendsize (adjusted_size sz) div 4) :: 32 word"
  note r = asize_in_range [OF sz]
  note I = heap_invD [OF inv]
  have a0: "?a \<noteq> 0" using r(3) by (auto simp add: uint_0_iff)
  from find_fit_inv [OF inv, of ?a] show ?thesis
  proof (elim disjE exE conjE)
    fix A C B
    let ?b = "?hl + total_size A"
    let ?s1 = "s\<lparr>next_fit := ?b\<rparr>"
    let ?s' = "place ?b ?a ?s1"
    assume ff: "find_fit ?a s = Some (Some ?b, ?s1)"
      and K: "K = A @ (C, 0) # B" and A: "A \<noteq> []" and le: "?a \<le> C"
    have "?b \<in> set (starts ?hl K)" by (simp add: K starts_append)
    with inv have inv1: "heap_inv K ?s1" by (rule heap_inv_cursor)
    have b: "?b = heap_listp ?s1 + total_size A" by simp
    from I(3) have lc: "layout (mem s) ?b ((C, 0) # B)" by (simp add: K layout_append)
    have rc: "GET_SIZE (mem ?s1) (?b - 4) = C" using layout_hd_reads [OF lc] by simp
    from place_inv [OF inv1 K A b r(2) a0 le]
    obtain K' where k: "heap_inv K' ?s'" "heap_listp ?s' = ?hl"
      "allocated ?hl K' = insert ?b (allocated ?hl K)" "?b \<notin> allocated ?hl K" "?b \<noteq> ?hl"
      by auto
    have mm: "mm_malloc sz s = Some (Some ?b, ?s')"
      using sz(1) ff by (simp add: mm_malloc_def Let_def)
    have mx: "mem_max_addr ?s' = mem_max_addr s" by (simp add: place_fields)
    have "(C, 0) \<in> set K" by (simp add: K)
    moreover have "\<not> uint C < uint (adjusted_size sz)"
      using le r(1) by (simp add: word_le_def)
    ultimately have ni: "\<not> (\<forall>C. (C, 0) \<in> set K \<longrightarrow> uint C < uint (adjusted_size sz))" by blast
    have le': "?a \<le> GET_SIZE (mem ?s1) (?b - 4)" using le rc by simp
    note h = place_header [OF r(2) a0 le']
    have hd: "GET_ALLOC (mem ?s') (?b - 4) = 1"
      "uint (adjusted_size sz) \<le> uint (GET_SIZE (mem ?s') (?b - 4))"
      using h r(1) by (simp_all add: word_le_def)
    have fr: "mem ?s' a = mem s a" if "a \<in> owned ?hl K \<or> a < ?hl - 4 \<or> mem_brk ?s' \<le> a" for a
    proof -
      from that have "a \<in> owned (heap_listp ?s1) K \<or> a < heap_listp ?s1 - 4 \<or> mem_brk ?s1 - 4 \<le> a"
        by (auto simp add: place_fields)
      with inv1 K A b r(2) a0 le have "mem ?s' a = mem ?s1 a" by (rule place_frame)
      then show ?thesis by simp
    qed
    show ?thesis
      using mm k mx ni hd fr by (intro exI [of _ "Some ?b"] exI [of _ ?s'] exI [of _ K']) simp
  next
    assume ff: "find_fit ?a s = Some (None, s)"
      and nf: "\<forall>C. (C, 0) \<in> set K \<longrightarrow> \<not> ?a \<le> C"
    define n where "n = max (uint (adjusted_size sz)) 4096"
    have n: "uint (extend_heap_size ?ws) = n" unfolding n_def using sz by (rule extend_request)
    have n8: "8 dvd n" "8 \<le> n" "n < 4294967296" and an: "uint ?a \<le> n"
      using r by (auto simp add: n_def max_def)
    have nf': "\<forall>C. (C, 0) \<in> set K \<longrightarrow> uint C < uint (adjusted_size sz)"
      using nf r(1) by (auto simp add: word_le_def)
    show ?thesis
    proof (cases "mem_brk s + n \<le> mem_max_addr s")
      case False
      then have "extend_heap ?ws s = (None, s)"
        by (intro extend_heap_fails) (simp add: n)
      then have mm: "mm_malloc sz s = Some (None, s)"
        using sz(1) ff by (simp add: mm_malloc_def Let_def)
      from False have "mem_max_addr s < mem_brk s + max (uint (adjusted_size sz)) 4096"
        by (simp add: n_def)
      with mm inv nf' show ?thesis
        by (intro exI [of _ None] exI [of _ s] exI [of _ K]) simp
    next
      case True
      from extend_heap_inv [OF inv n n8 True]
      obtain p s' A c B where eh: "extend_heap ?ws s = (Some p, s')"
        and inv': "heap_inv (A @ (c, 0) # B) s'" and A: "A \<noteq> []"
        and p: "p = ?hl + total_size A" and nc: "n \<le> uint c"
        and al: "allocated ?hl (A @ (c, 0) # B) = allocated ?hl K"
        and hl: "heap_listp s' = ?hl"
        and bk: "mem_brk s' = mem_brk s + n" and mx': "mem_max_addr s' = mem_max_addr s"
        and fe: "\<forall>a. a \<in> owned ?hl K \<or> a < ?hl - 4 \<or> mem_brk s + n \<le> a \<longrightarrow> mem s' a = mem s a"
        by blast
      let ?K1 = "A @ (c, 0) # B"
      let ?s'' = "place p ?a s'"
      note I' = heap_invD [OF inv']
      have le: "?a \<le> c" using an nc by (simp add: word_le_def)
      have p': "p = heap_listp s' + total_size A" using p hl by simp
      from I'(3) have lc: "layout (mem s') p ((c, 0) # B)" by (simp add: layout_append p')
      have rc: "GET_SIZE (mem s') (p - 4) = c" using layout_hd_reads [OF lc] by simp
      from place_inv [OF inv' refl A p' r(2) a0 le]
      obtain K' where k: "heap_inv K' ?s''" "heap_listp ?s'' = ?hl"
        "allocated ?hl K' = insert p (allocated ?hl K)" "p \<notin> allocated ?hl K" "p \<noteq> ?hl"
        unfolding hl al by auto
      have mm: "mm_malloc sz s = Some (Some p, ?s'')"
        using sz(1) ff eh by (simp add: mm_malloc_def Let_def)
      have mx: "mem_max_addr ?s'' = mem_max_addr s" by (simp add: place_fields mx')
      from True have ni: "\<not> mem_max_addr s < mem_brk s + max (uint (adjusted_size sz)) 4096"
        by (simp add: n_def)
      have le': "?a \<le> GET_SIZE (mem s') (p - 4)" using le rc by simp
      note h = place_header [OF r(2) a0 le']
      have hd: "GET_ALLOC (mem ?s'') (p - 4) = 1"
        "uint (adjusted_size sz) \<le> uint (GET_SIZE (mem ?s'') (p - 4))"
        using h r(1) by (simp_all add: word_le_def)
      have oe: "owned ?hl ?K1 = owned ?hl K"
        using I(3) I'(3) [unfolded hl] al
      proof (rule owned_eq)
        show "\<forall>a \<in> owned ?hl K. mem s' a = mem s a" using fe by blast
      qed
      have fr: "mem ?s'' a = mem s a" if a: "a \<in> owned ?hl K \<or> a < ?hl - 4 \<or> mem_brk ?s'' \<le> a" for a
      proof -
        from a have 1: "a \<in> owned ?hl K \<or> a < ?hl - 4 \<or> mem_brk s + n \<le> a"
          by (simp add: place_fields bk)
        then have "a \<in> owned (heap_listp s') ?K1 \<or> a < heap_listp s' - 4 \<or> mem_brk s' - 4 \<le> a"
          by (auto simp add: hl oe bk)
        with inv' refl A p' r(2) a0 le have "mem ?s'' a = mem s' a" by (rule place_frame)
        moreover from fe 1 have "mem s' a = mem s a" by blast
        ultimately show ?thesis by simp
      qed
      show ?thesis
        using mm k mx ni hd fr by (intro exI [of _ "Some p"] exI [of _ ?s''] exI [of _ K']) simp
    qed
  qed
qed

lemma GET_PUT_eq: "p = q \<Longrightarrow> GET (PUT m p v) q = v"
  by (simp add: GET_PUT_same)

text \<open>\<open>mm_init\<close> establishes the invariant.\<close>

lemma mm_init_inv:
  assumes ok: "fst (mm_init s0) = 0"
      and region: "mem_max_addr s0 - mem_brk s0 < 4294967296"
  shows "\<exists>K. heap_inv K (snd (mm_init s0))
           \<and> allocated (heap_listp (snd (mm_init s0))) K = {heap_listp (snd (mm_init s0))}"
proof -
  let ?p = "mem_brk s0"
  have s16: "?p + 16 \<le> mem_max_addr s0"
    using ok by (auto simp add: mm_init_def mem_sbrk_def WSIZE_def split: if_splits)
  let ?m = "PUT (PUT (PUT (PUT (mem s0) ?p 0) (?p + 4) (PACK 8 1)) (?p + 8) (PACK 8 1)) (?p + 12) (PACK 0 1)"
  let ?s = "s0\<lparr>mem_brk := ?p + 16, mem := ?m, heap_listp := ?p + 8, next_fit := ?p + 8\<rparr>"
  have ini: "mm_init s0 = (case extend_heap (CHUNKSIZE div 4) ?s of
                (None, s) \<Rightarrow> (- 1, s) | (Some _, s) \<Rightarrow> (0, s))"
    using s16 by (simp add: mm_init_def mem_sbrk_def WSIZE_def Let_def)
  have inv: "heap_inv [(8, 1)] ?s"
    using s16 region by (simp add: heap_inv_def GET_PUT_other GET_PUT_eq)
  have n: "uint (extend_heap_size (CHUNKSIZE div 4)) = 4096"
    by (simp add: extend_heap_size_def CHUNKSIZE_def)
  have ok2: "mem_brk ?s + 4096 \<le> mem_max_addr ?s"
  proof (rule ccontr)
    assume "\<not> ?thesis"
    then have "extend_heap (CHUNKSIZE div 4) ?s = (None, ?s)"
      by (intro extend_heap_fails) (simp add: n)
    with ok ini show False by simp
  qed
  from extend_heap_inv [OF inv n _ _ _ ok2]
  obtain r s' A c B where eh: "extend_heap (CHUNKSIZE div 4) ?s = (Some r, s')"
    and inv': "heap_inv (A @ (c, 0) # B) s'"
    and al: "allocated (heap_listp ?s) (A @ (c, 0) # B) = allocated (heap_listp ?s) [(8, 1)]"
    and hl: "heap_listp s' = heap_listp ?s" by auto
  have "snd (mm_init s0) = s'" using ini eh by simp
  with inv' al hl show ?thesis by auto
qed

text \<open>
  In range \<open>mm_malloc\<close> returns null exactly when the size is 0, or no free block has
  the adjusted size, which is the request plus 8 rounded up to a multiple of 8, and the
  region cannot grow by the larger of the adjusted size and 4096.
\<close>

lemma mm_malloc_null_in_range:
  assumes inv: "heap_inv K s" and sz: "uint sz \<le> 2147483632"
  shows "\<exists>r s'. mm_malloc sz s = Some (r, s') \<and>
           (r = None \<longleftrightarrow>
              sz = 0 \<or>
              (\<forall>C. (C, 0) \<in> set K \<longrightarrow> uint C < 8 * ((uint sz + 15) div 8))
              \<and> mem_max_addr s < mem_brk s + max (8 * ((uint sz + 15) div 8)) 4096)"
proof (cases "sz = 0")
  case True
  then show ?thesis by (simp add: mm_malloc_def)
next
  case False
  have "uint sz \<le> 4294967280" using sz by simp
  from adjusted_size_in_range(1) [OF False this]
  have a: "uint (adjusted_size sz) = 8 * ((uint sz + 15) div 8)" .
  from mm_malloc_inv [OF inv False sz] show ?thesis unfolding a using False by blast
qed

subsection \<open>mm\_realloc for requests in range\<close>

lemma allocated_disjoint:
  assumes l: "layout m p L" and x: "x \<in> allocated p L" and y: "y \<in> allocated p L" and xy: "x < y"
  shows "x + uint (GET_SIZE m (x - 4)) \<le> y"
proof -
  from allocated_split [OF x] obtain A c B where L: "L = A @ (c, 1) # B"
    and xa: "x = p + total_size A" by blast
  from l have lA: "layout m p A" and lc: "layout m x ((c, 1) # B)"
    by (simp_all add: L layout_append xa)
  from lc have lB: "layout m (x + uint c) B" by simp
  have rc: "GET_SIZE m (x - 4) = c" using lc by (rule layout_hd_reads)
  from y have "y \<in> allocated p A \<or> y = x \<or> y \<in> allocated (x + uint c) B"
    by (auto simp add: L allocated_append xa add.assoc split: if_splits)
  then show ?thesis
  proof (elim disjE)
    assume "y \<in> allocated p A"
    from allocated_range [OF lA this] xy show ?thesis by (simp add: xa)
  next
    assume "y = x"
    with xy show ?thesis by simp
  next
    assume "y \<in> allocated (x + uint c) B"
    from allocated_range [OF lB this] show ?thesis by (simp add: rc)
  qed
qed

text \<open>Writing into the payload of an allocated block keeps the invariant.\<close>

lemma heap_inv_payload:
  assumes inv: "heap_inv K s"
      and K: "K = A @ (c, 1) # B"
      and p: "p = heap_listp s + total_size A"
      and ag: "\<forall>a. a < p \<or> p + uint c - 8 \<le> a \<longrightarrow> m' a = mem s a"
  shows "heap_inv K (s\<lparr>mem := m'\<rparr>)"
proof -
  let ?hl = "heap_listp s"
  note I = heap_invD [OF inv]
  have tB: "0 \<le> total_size B" and tA: "0 \<le> total_size A" by (rule total_size_nonneg)+
  from I(3) have lA: "layout (mem s) ?hl A" and lc: "layout (mem s) p ((c, 1) # B)"
    by (simp_all add: K layout_append p)
  from lc have lB: "layout (mem s) (p + uint c) B" by simp
  have c8: "8 \<le> uint c" using lc by (rule layout_size_ge8)
  have "layout m' ?hl A" using lA
    by (rule layout_agree) (use ag in \<open>simp add: p\<close>)
  moreover have "GET m' (p - 4) = GET (mem s) (p - 4)"
    by (rule GET_agree_range) (use ag in simp)
  moreover have "GET m' (p + uint c - 8) = GET (mem s) (p + uint c - 8)"
    by (rule GET_agree_range) (use ag in simp)
  moreover have "layout m' (p + uint c) B" using lB
    by (rule layout_agree) (use ag in simp)
  ultimately have l: "layout m' ?hl K" using lc by (simp add: K layout_append p)
  have e: "GET m' (mem_brk s - 4) = GET (mem s) (mem_brk s - 4)"
    by (rule GET_agree_range) (use ag tB in \<open>simp add: I(4) K p\<close>)
  show ?thesis
    unfolding heap_inv_def using I l e by simp
qed

text \<open>
  In range \<open>mm_realloc\<close> ends the process exactly when \<open>mm_malloc\<close> returns null.
  Otherwise it returns a block that was not allocated before, is allocated now and has
  room for the request; the old block is no longer allocated, every other block still
  is, and the invariant holds. The first min(size, old block size) bytes of the new
  block are those that followed \<open>ptr\<close> after the inner \<open>mm_malloc\<close>, which are the old
  payload as far as it reaches. Nothing outside the heap is written.
\<close>

lemma mm_realloc_in_range:
  assumes inv: "heap_inv K s"
      and ptr: "ptr \<in> allocated (heap_listp s) K" "ptr \<noteq> heap_listp s"
      and sz: "sz \<noteq> 0" "uint sz \<le> 2147483632"
  shows "\<exists>r s1. mm_malloc sz s = Some (r, s1) \<and>
           (case r of
              None \<Rightarrow> mm_realloc ptr sz s = Some (Exit 1)
            | Some newp \<Rightarrow>
                (\<exists>s' K'. mm_realloc ptr sz s = Some (Returned newp s')
                   \<and> heap_inv K' s'
                   \<and> newp \<notin> allocated (heap_listp s) K
                   \<and> allocated (heap_listp s) K' = insert newp (allocated (heap_listp s) K) - {ptr}
                   \<and> GET_ALLOC (mem s') (newp - 4) = 1
                   \<and> uint sz + 8 \<le> uint (GET_SIZE (mem s') (newp - 4))
                   \<and> (\<forall>i. 0 \<le> i \<and> i < min (uint sz) (uint (GET_SIZE (mem s) (ptr - 4)))
                          \<longrightarrow> mem s' (newp + i) = mem s1 (ptr + i))
                   \<and> (\<forall>i. 0 \<le> i \<and> i < min (uint sz) (uint (GET_SIZE (mem s) (ptr - 4)) - 8)
                          \<longrightarrow> mem s' (newp + i) = mem s (ptr + i))
                   \<and> (\<forall>a. a < heap_listp s - 4 \<or> mem_brk s' \<le> a \<longrightarrow> mem s' a = mem s a)))"
proof -
  let ?hl = "heap_listp s"
  note I = heap_invD [OF inv]
  from mm_malloc_inv [OF inv sz]
  obtain r s1 K1 where mm: "mm_malloc sz s = Some (r, s1)" and inv1: "heap_inv K1 s1"
    and hl1: "heap_listp s1 = ?hl"
    and al: "case r of
               None \<Rightarrow> allocated ?hl K1 = allocated ?hl K
             | Some p \<Rightarrow> p \<notin> allocated ?hl K \<and> p \<noteq> ?hl
                         \<and> allocated ?hl K1 = insert p (allocated ?hl K)"
    and hd: "\<forall>p. r = Some p \<longrightarrow> GET_ALLOC (mem s1) (p - 4) = 1
                  \<and> uint (adjusted_size sz) \<le> uint (GET_SIZE (mem s1) (p - 4))"
    and fr1: "\<forall>a. a \<in> owned ?hl K \<or> a < ?hl - 4 \<or> mem_brk s1 \<le> a \<longrightarrow> mem s1 a = mem s a"
    by blast
  show ?thesis
  proof (cases r)
    case None
    with mm show ?thesis by (simp add: mm_realloc_def)
  next
    case (Some newp)
    note I1 = heap_invD [OF inv1, unfolded hl1]
    from al Some have nn: "newp \<notin> allocated ?hl K" and nhl: "newp \<noteq> ?hl"
      and al1: "allocated ?hl K1 = insert newp (allocated ?hl K)" by simp_all
    from hd Some have ha: "GET_ALLOC (mem s1) (newp - 4) = 1"
      and hs: "uint (adjusted_size sz) \<le> uint (GET_SIZE (mem s1) (newp - 4))" by simp_all
    define c where "c = GET_SIZE (mem s) (ptr - 4)"
    define cn where "cn = GET_SIZE (mem s1) (newp - 4)"
    have r8: "uint sz + 8 \<le> uint (adjusted_size sz)"
      using sz by (intro adjusted_size_in_range(3)) simp_all
    have szcn: "uint sz + 8 \<le> uint cn" using r8 hs by (simp add: cn_def)
    have np: "newp \<noteq> ptr" using nn ptr(1) by auto
    have p1: "ptr \<in> allocated ?hl K1" and n1: "newp \<in> allocated ?hl K1"
      using ptr(1) by (simp_all add: al1)
    note po = allocated_in_owned [OF I(3) ptr(1), folded c_def]
    have pk: "mem s1 a = mem s a" if "ptr - 4 \<le> a" "a < ptr + uint c - 4" for a
      using that po(1) fr1 by auto
    have "GET (mem s1) (ptr - 4) = GET (mem s) (ptr - 4)"
      by (rule GET_agree_range) (use pk po(2) in auto)
    then have c1: "GET_SIZE (mem s1) (ptr - 4) = c" by (simp add: c_def GET_SIZE_def)
    let ?n = "if sz < c then sz else c"
    define n where "n = min (uint sz) (uint c)"
    have n: "int (unat ?n) = n" by (auto simp add: n_def word_less_def min_def)
    have n0: "0 \<le> n" by (simp add: n_def)
    have ncn: "n \<le> uint cn - 8" using szcn by (simp add: n_def)
    let ?m2 = "memcpy (mem s1) newp ptr (unat ?n)"
    let ?s2 = "s1\<lparr>mem := ?m2\<rparr>"
    have cp: "?m2 a = (if newp \<le> a \<and> a < newp + n then mem s1 (ptr + (a - newp)) else mem s1 a)" for a
      unfolding memcpy_def n by simp
    have re: "mm_realloc ptr sz s = Some (Returned newp (mm_free ptr ?s2))"
      using mm Some by (simp add: mm_realloc_def Let_def HDRP_def WSIZE_def c1)
    from allocated_split [OF n1] obtain A cb B where K1: "K1 = A @ (cb, 1) # B"
      and na: "newp = ?hl + total_size A" by blast
    from I1(3) have "layout (mem s1) newp ((cb, 1) # B)" by (simp add: K1 layout_append na)
    from layout_hd_reads(1) [OF this] have cb: "cb = cn" by (simp add: cn_def)
    have inv2: "heap_inv K1 ?s2"
      using inv1 K1 [unfolded cb]
    proof (rule heap_inv_payload)
      show "newp = heap_listp s1 + total_size A" by (simp add: hl1 na)
      show "\<forall>a. a < newp \<or> newp + uint cn - 8 \<le> a \<longrightarrow> ?m2 a = mem s1 a"
        using ncn by (auto simp add: cp)
    qed
    note I2 = heap_invD [OF inv2, simplified, unfolded hl1]
    have p2: "ptr \<in> allocated (heap_listp ?s2) K1" "ptr \<noteq> heap_listp ?s2"
      using p1 ptr(2) by (simp_all add: hl1)
    from mm_free_inv [OF inv2 p2]
    obtain K' where inv': "heap_inv K' (mm_free ptr ?s2)"
      and al': "allocated ?hl K' = allocated ?hl K1 - {ptr}"
      and bk': "mem_brk (mm_free ptr ?s2) = mem_brk s1"
      and fr3: "\<forall>a. (a \<in> owned ?hl K1
                     \<and> \<not> (ptr - 4 \<le> a \<and> a < ptr + uint (GET_SIZE ?m2 (ptr - 4)) - 4))
                  \<or> a < ?hl - 4 \<or> mem_brk s1 - 4 \<le> a
                  \<longrightarrow> mem (mm_free ptr ?s2) a = ?m2 a"
      by (auto simp add: hl1)
    let ?s' = "mm_free ptr ?s2"
    define c2 where "c2 = GET_SIZE ?m2 (ptr - 4)"
    have "GET ?m2 (newp - 4) = GET (mem s1) (newp - 4)"
      by (rule GET_agree_range) (simp add: cp)
    then have cn2: "GET_SIZE ?m2 (newp - 4) = cn" and ha2: "GET_ALLOC ?m2 (newp - 4) = 1"
      using ha by (simp_all add: cn_def GET_SIZE_def GET_ALLOC_def)
    note no = allocated_in_owned [OF I2(3) n1, unfolded cn2]
    have dj: "newp + uint cn \<le> ptr \<or> ptr + uint c2 \<le> newp"
    proof (cases "newp < ptr")
      case True
      from allocated_disjoint [OF I2(3) n1 p1 True] show ?thesis by (simp add: cn2)
    next
      case False
      with np have "ptr < newp" by simp
      from allocated_disjoint [OF I2(3) p1 n1 this] show ?thesis by (simp add: c2_def)
    qed
    have nk: "mem ?s' a = ?m2 a" if "newp - 4 \<le> a" "a < newp + uint cn - 4" for a
    proof -
      from that no(1) have "a \<in> owned ?hl K1" by auto
      moreover have "\<not> (ptr - 4 \<le> a \<and> a < ptr + uint c2 - 4)" using dj that by auto
      ultimately show ?thesis using fr3 by (simp add: c2_def)
    qed
    have "GET (mem ?s') (newp - 4) = GET ?m2 (newp - 4)"
      by (rule GET_agree_range) (use nk no(2) in auto)
    then have h': "GET_ALLOC (mem ?s') (newp - 4) = 1" "GET_SIZE (mem ?s') (newp - 4) = cn"
      using cn2 ha2 by (simp_all add: GET_SIZE_def GET_ALLOC_def)
    have copy: "mem ?s' (newp + i) = mem s1 (ptr + i)" if "0 \<le> i" "i < n" for i
    proof -
      have "mem ?s' (newp + i) = ?m2 (newp + i)" using that ncn by (intro nk) simp_all
      also have "\<dots> = mem s1 (ptr + i)" using that by (simp add: cp)
      finally show ?thesis .
    qed
    have old: "mem ?s' (newp + i) = mem s (ptr + i)" if "0 \<le> i" "i < min (uint sz) (uint c - 8)" for i
    proof -
      from that have "i < n" by (simp add: n_def)
      with that(1) have "mem ?s' (newp + i) = mem s1 (ptr + i)" by (rule copy)
      also have "\<dots> = mem s (ptr + i)" using that by (intro pk) simp_all
      finally show ?thesis .
    qed
    have out: "mem ?s' a = mem s a" if a: "a < ?hl - 4 \<or> mem_brk ?s' \<le> a" for a
    proof -
      have tA: "0 \<le> total_size A" and tB: "0 \<le> total_size B" by (rule total_size_nonneg)+
      have "newp + uint cn \<le> mem_brk s1" using tB by (simp add: I1(4) K1 cb na)
      moreover have "?hl \<le> newp" using tA by (simp add: na)
      ultimately have "a < newp \<or> newp + n \<le> a" using a ncn by (auto simp add: bk')
      then have "?m2 a = mem s1 a" by (auto simp add: cp)
      moreover have "mem ?s' a = ?m2 a" using a fr3 by (auto simp add: bk')
      moreover have "mem s1 a = mem s a" using a fr1 by (auto simp add: bk')
      ultimately show ?thesis by simp
    qed
    have alK: "allocated ?hl K' = insert newp (allocated ?hl K) - {ptr}"
      using al' al1 by simp
    have "mm_realloc ptr sz s = Some (Returned newp ?s') \<and> heap_inv K' ?s'
          \<and> newp \<notin> allocated ?hl K
          \<and> allocated ?hl K' = insert newp (allocated ?hl K) - {ptr}
          \<and> GET_ALLOC (mem ?s') (newp - 4) = 1
          \<and> uint sz + 8 \<le> uint (GET_SIZE (mem ?s') (newp - 4))
          \<and> (\<forall>i. 0 \<le> i \<and> i < min (uint sz) (uint c) \<longrightarrow> mem ?s' (newp + i) = mem s1 (ptr + i))
          \<and> (\<forall>i. 0 \<le> i \<and> i < min (uint sz) (uint c - 8) \<longrightarrow> mem ?s' (newp + i) = mem s (ptr + i))
          \<and> (\<forall>a. a < ?hl - 4 \<or> mem_brk ?s' \<le> a \<longrightarrow> mem ?s' a = mem s a)"
      using re inv' nn alK h' szcn copy old out unfolding n_def by (intro conjI allI impI) auto
    then show ?thesis using mm Some unfolding c_def by auto
  qed
qed

text \<open>
  An instance: on \<open>heap3\<close> (prologue, two allocated blocks of 16 bytes at 4112 and 4128,
  a free block of 4064 bytes at 4144) \<open>realloc(4112, 8)\<close> returns 4144 with the 8 payload
  bytes of block 4112.
\<close>

lemma heap3_inv: "heap_inv [(8, 1), (16, 1), (16, 1), (4064, 0)] heap3"
  by (simp add: heap_inv_def heaps codec reads)

lemma heap3_malloc: "\<exists>s1. mm_malloc 8 heap3 = Some (Some 4144, s1)"
  by (simp add: ops heaps codec reads)

lemma mm_realloc_in_range_example:
  "heap_inv [(8, 1), (16, 1), (16, 1), (4064, 0)] heap3
   \<and> (\<exists>s'. mm_realloc 4112 8 heap3 = Some (Returned 4144 s')
          \<and> GET_ALLOC (mem s') 4140 = 1
          \<and> 16 \<le> uint (GET_SIZE (mem s') 4140)
          \<and> (\<forall>i. 0 \<le> i \<and> i < 8 \<longrightarrow> mem s' (4144 + i) = mem heap3 (4112 + i)))"
proof -
  have a: "4112 \<in> allocated (heap_listp heap3) [(8, 1), (16, 1), (16, 1), (4064, 0)]"
    "4112 \<noteq> heap_listp heap3" "(8 :: 32 word) \<noteq> 0" "uint (8 :: 32 word) \<le> 2147483632"
    by (simp_all add: heaps)
  have g: "GET_SIZE (mem heap3) (4112 - 4) = 16" by (simp add: heaps codec reads)
  from heap3_malloc obtain s1 where m: "mm_malloc 8 heap3 = Some (Some 4144, s1)" by blast
  from mm_realloc_in_range [OF heap3_inv a] show ?thesis
    unfolding m g by (auto simp add: heap3_inv)
qed

subsection \<open>Sessions of requests in range\<close>

lemma chain_unique: "chain m p bs q \<Longrightarrow> chain m p bs' q \<Longrightarrow> bs = bs'"
proof (induction bs arbitrary: p bs')
  case Nil
  show ?case
  proof (cases bs')
    case Nil
    then show ?thesis by simp
  next
    case (Cons b bs'')
    with Nil.prems have "p < NEXT_BLKP m p" "NEXT_BLKP m p \<le> q" "p = q"
      by (auto simp add: NEXT_BLKP_gt dest: chain_le)
    then show ?thesis by simp
  qed
next
  case (Cons b bs)
  show ?case
  proof (cases bs')
    case Nil
    with Cons.prems have "p < NEXT_BLKP m p" "NEXT_BLKP m p \<le> q" "p = q"
      by (auto simp add: NEXT_BLKP_gt dest: chain_le)
    then show ?thesis by simp
  next
    case (Cons b' bs'')
    with Cons.prems Cons.IH [of "NEXT_BLKP m p" bs''] show ?thesis by auto
  qed
qed

lemma naf_no_free_pair: "layout m p K \<Longrightarrow> naf K \<Longrightarrow> \<not> free_pair m (starts p K)"
proof (induction K arbitrary: p)
  case Nil
  show ?case by simp
next
  case (Cons b K)
  note prems = Cons.prems and IH = Cons.IH
  obtain s1 a1 where b: "b = (s1, a1)" by (cases b)
  show ?case
  proof (cases K)
    case Nil
    then show ?thesis by (simp add: b)
  next
    case (Cons b2 L)
    obtain s2 a2 where b2: "b2 = (s2, a2)" by (cases b2)
    from prems(1) have l1: "layout m p ((s1, a1) # K)"
      and l2: "layout m (p + uint s1) ((s2, a2) # L)" by (simp_all add: b b2 Cons)
    from prems(2) have n: "\<not> (a1 = 0 \<and> a2 = 0)" and n2: "naf K" by (simp_all add: b b2 Cons)
    have "GET_ALLOC m (p - 4) = a1" using l1 by (rule layout_hd_reads)
    moreover have "GET_ALLOC m (p + uint s1 - 4) = a2" using l2 by (rule layout_hd_reads)
    moreover have "\<not> free_pair m (starts (p + uint s1) K)"
      using l2 n2 by (intro IH) (simp_all add: b2 Cons)
    ultimately show ?thesis using n by (auto simp add: HDRP_def WSIZE_def b b2 Cons)
  qed
qed

lemma run_inv:
  assumes "heap_inv K s" and "distinct live"
      and "set live \<subseteq> allocated (heap_listp s) K - {heap_listp s}"
      and "\<forall>r \<in> set rs. in_range r"
      and "run rs live s = Some (live', s')"
  shows "\<exists>K'. heap_inv K' s' \<and> distinct live'
           \<and> set live' \<subseteq> allocated (heap_listp s') K' - {heap_listp s'}"
  using assms
proof (induction rs arbitrary: K live s)
  case Nil
  then show ?case by auto
next
  case (Cons r rs)
  show ?case
  proof (cases r)
    case (Allocate n)
    show ?thesis
    proof (cases "n = 0")
      case True
      then have "mm_malloc n s = Some (None, s)" by (simp add: mm_malloc_def)
      with Cons.prems Allocate have "run rs live s = Some (live', s')" by simp
      with Cons.prems show ?thesis by (intro Cons.IH [of K s live]) simp_all
    next
      case False
      from Cons.prems(4) Allocate have "uint n \<le> 2147483632" by simp
      from mm_malloc_inv [OF Cons.prems(1) False this]
      obtain p s1 K1 where mm: "mm_malloc n s = Some (p, s1)" and i1: "heap_inv K1 s1"
        and hl: "heap_listp s1 = heap_listp s"
        and al: "case p of
                None \<Rightarrow> allocated (heap_listp s) K1 = allocated (heap_listp s) K
              | Some b \<Rightarrow> b \<notin> allocated (heap_listp s) K \<and> b \<noteq> heap_listp s
                         \<and> allocated (heap_listp s) K1 = insert b (allocated (heap_listp s) K)"
        by blast
      show ?thesis
      proof (cases p)
        case None
        with Cons.prems Allocate mm have "run rs live s1 = Some (live', s')" by simp
        moreover have "set live \<subseteq> allocated (heap_listp s1) K1 - {heap_listp s1}"
          using al None Cons.prems(3) by (simp add: hl)
        ultimately show ?thesis using i1 Cons.prems by (intro Cons.IH [of K1 s1 live]) simp_all
      next
        case (Some b)
        with Cons.prems Allocate mm have "run rs (b # live) s1 = Some (live', s')" by simp
        moreover have "set (b # live) \<subseteq> allocated (heap_listp s1) K1 - {heap_listp s1}"
          using al Some Cons.prems(3) by (auto simp add: hl)
        moreover have "distinct (b # live)"
          using al Some Cons.prems(2,3) by auto
        ultimately show ?thesis using i1 Cons.prems by (intro Cons.IH [of K1 s1 "b # live"]) simp_all
      qed
    qed
  next
    case (Release p)
    with Cons.prems have pl: "p \<in> set live" and ru: "run rs (remove1 p live) (mm_free p s) = Some (live', s')"
      by (auto split: if_splits)
    from pl Cons.prems(3) have "p \<in> allocated (heap_listp s) K" "p \<noteq> heap_listp s" by auto
    from mm_free_inv [OF Cons.prems(1) this]
    obtain K1 where i1: "heap_inv K1 (mm_free p s)" and hl: "heap_listp (mm_free p s) = heap_listp s"
      and al: "allocated (heap_listp s) K1 = allocated (heap_listp s) K - {p}" by blast
    have "set (remove1 p live) \<subseteq> allocated (heap_listp (mm_free p s)) K1 - {heap_listp (mm_free p s)}"
      using Cons.prems(2,3) al by (auto simp add: hl)
    moreover have "distinct (remove1 p live)" using Cons.prems(2) by simp
    ultimately show ?thesis using i1 ru Cons.prems
      by (intro Cons.IH [of K1 "mm_free p s" "remove1 p live"]) simp_all
  qed
qed

theorem in_range_sessions_keep_blocks_coalesced:
  assumes "fst (mm_init s0) = 0"
      and "mem_max_addr s0 - mem_brk s0 < 4294967296"
      and "\<forall>r \<in> set rs. in_range r"
      and "run rs [] (snd (mm_init s0)) = Some (live, s)"
  shows "\<exists>bs. chain (mem s) (heap_listp s) bs (mem_brk s)
           \<and> GET (mem s) (HDRP (mem_brk s)) = PACK 0 1
           \<and> \<not> free_pair (mem s) bs"
proof -
  from mm_init_inv [OF assms(1,2)] obtain K0 where "heap_inv K0 (snd (mm_init s0))" by blast
  from run_inv [OF this _ _ assms(3,4)] obtain K where inv: "heap_inv K s" by auto
  note I = heap_invD [OF inv]
  have "chain (mem s) (heap_listp s) (starts (heap_listp s) K) (mem_brk s)"
    using layout_chain [OF I(3)] by (simp add: I(4))
  moreover have "\<not> free_pair (mem s) (starts (heap_listp s) K)"
    using I(3) I(6) by (rule naf_no_free_pair)
  ultimately show ?thesis using I(5) by (auto simp add: HDRP_def WSIZE_def)
qed

text \<open>
  The requests \<open>malloc(8)\<close>, \<open>malloc(8)\<close>, \<open>malloc(4056)\<close>, \<open>free(4112)\<close> on a
  fresh 20 MB region are in range, and the theorem applies to them: in the heap they end
  in, block 4112 is free and its neighbours are allocated.
\<close>

lemma in_range_session_example:
  "fst (mm_init boot) = 0
   \<and> mem_max_addr boot - mem_brk boot < 4294967296
   \<and> (\<forall>r \<in> set [Allocate 8, Allocate 8, Allocate 4056, Release 4112]. in_range r)
   \<and> run [Allocate 8, Allocate 8, Allocate 4056, Release 4112] [] (snd (mm_init boot))
       = Some ([4144, 4128], heap5)
   \<and> (\<exists>bs. chain (mem heap5) (heap_listp heap5) bs (mem_brk heap5)
          \<and> GET (mem heap5) (HDRP (mem_brk heap5)) = PACK 0 1
          \<and> \<not> free_pair (mem heap5) bs)"
proof -
  have i: "fst (mm_init boot) = 0" by (simp add: init_boot)
  have b: "mem_max_addr boot - mem_brk boot < 4294967296" by (simp add: boot_def)
  have q: "\<forall>r \<in> set [Allocate 8, Allocate 8, Allocate 4056, Release 4112]. in_range r"
    by simp
  have r: "run [Allocate 8, Allocate 8, Allocate 4056, Release 4112] [] (snd (mm_init boot))
       = Some ([4144, 4128], heap5)"
    by (simp add: init_boot malloc_heap1 malloc_heap2 malloc_heap3 free_heap4)
  from in_range_sessions_keep_blocks_coalesced [OF i b q r] i b q r
  show ?thesis by (intro conjI)
qed

end
